theory Spec2Isabelle
  imports Main "HOL-Library.Sublist"
begin

section \<open>The test bench of ts-eventsourcing: data model\<close>

text \<open>
  The theory embeds the task orchestration of
  \<^verbatim>\<open>src/Testing/EventSourcingTestBench.ts\<close>: the registration of tasks
  (\<^verbatim>\<open>addTask\<close>, \<^verbatim>\<open>addPending\<close>), the drain loop (\<^verbatim>\<open>toPromise\<close>), the
  task hook (\<^verbatim>\<open>handleTask\<close>) and its replacement by \<^verbatim>\<open>throws\<close>, the
  checkpoint (\<^verbatim>\<open>_thenWaitUntilProcessed\<close>), the thenable protocol
  (\<^verbatim>\<open>thenPromise\<close>) and the constructor with \<^verbatim>\<open>parseDateTime\<close>.

  A thrown JavaScript value is either an error object, with the names of the classes on
  its prototype chain and its message, or a falsy value (\<^verbatim>\<open>undefined\<close>,
  \<^verbatim>\<open>null\<close>, \<^verbatim>\<open>0\<close>, the empty string), which
  \<^verbatim>\<open>if (actualError)\<close> in \<^verbatim>\<open>throws\<close> does not see.
\<close>

datatype js_error = Thrown (err_classes: "string list") (err_message: string) | Falsy

definition Error :: "string \<Rightarrow> js_error" where
  "Error msg = Thrown [''Error''] msg"

definition TypeError :: "string \<Rightarrow> js_error" where
  "TypeError msg = Thrown [''TypeError'', ''Error''] msg"

text \<open>
  The value a settled promise delivers: \<^verbatim>\<open>toPromise\<close> resolves with
  \<^verbatim>\<open>undefined\<close>, \<^verbatim>\<open>thenPromise\<close> with \<^verbatim>\<open>this\<close>.
\<close>

datatype js_value = Undefined | This

text \<open>A frame of \<^verbatim>\<open>error-stack-parser\<close>: every field may be missing.\<close>

record StackFrame =
  functionName :: "string option"
  fileName :: "string option"
  lineNumber :: "nat option"
  columnNumber :: "nat option"

text \<open>
  The argument of \<^verbatim>\<open>throws\<close>: nothing, a message, a class or a regular expression
  (given by the set of strings it matches).
\<close>

datatype matcher = AnyError | Message string | Class string | RegExp "string \<Rightarrow> bool"

text \<open>
  The loggers of \<^verbatim>\<open>triviality-logger\<close> the bench uses: \<^verbatim>\<open>NullLogger\<close> drops
  a line, \<^verbatim>\<open>ProcessLogger\<close> prints it, \<^verbatim>\<open>PrefixLogger\<close> puts a prefix
  before it and hands it on.
\<close>

datatype logger = NullLogger | ProcessLogger | PrefixLogger logger string

text \<open>
  A task's callback is a closure over the bench. What a callback can do to the
  orchestration is written as a list of actions, run in order:
  \<^item> \<open>AddTask st cb\<close>: a call of a registering method, which calls
    \<^verbatim>\<open>this.addTask(cb)\<close>; \<open>st\<close> is what
    \<^verbatim>\<open>ErrorStackParser.parse(new Error())\<close> returns at that call;
  \<^item> \<open>AwaitThis\<close>: \<^verbatim>\<open>await\<close> of the bench a registering method returned;
  \<^item> \<open>WaitUntilProcessed\<close>: \<^verbatim>\<open>await this._thenWaitUntilProcessed()\<close>;
  \<^item> \<open>Throw e\<close>: the callback throws (or its promise rejects with) \<open>e\<close>;
  \<^item> \<open>Publish r\<close>: an event is handed to the asynchronous bus; its listener will
    succeed (\<open>None\<close>) or fail with an error;
  \<^item> \<open>SwapHandleTask m\<close>: the assignment to \<^verbatim>\<open>this.handleTask\<close> in
    \<^verbatim>\<open>throws(m)\<close>;
  \<^item> \<open>SetBreakpoint\<close>, \<open>SetLogger l\<close>: the assignments of
    \<^verbatim>\<open>thenIPutABeakpoint\<close> and \<^verbatim>\<open>givenTestLogger\<close>.
\<close>

datatype action =
    AddTask "StackFrame list" "action list"
  | AwaitThis
  | WaitUntilProcessed
  | Throw js_error
  | Publish "js_error option"
  | SwapHandleTask matcher
  | SetBreakpoint
  | SetLogger logger

record TestTask =
  callback :: "action list"
  description :: string
  stack :: "StackFrame list"

text \<open>
  The value of \<^verbatim>\<open>this.handleTask\<close>: the method of the class, or the closure
  \<^verbatim>\<open>throws\<close> assigns, which holds the hook it replaced and the matcher.
\<close>

datatype handler = Default | Intercept handler matcher

text \<open>
  The bench. \<^verbatim>\<open>this.tasks\<close> is a reference to an array that \<^verbatim>\<open>push\<close>
  mutates and \<^verbatim>\<open>for ... of\<close> reads while it runs, so the arrays live in a
  store (\<open>arrays\<close>, addressed by position; \<^verbatim>\<open>[]\<close> allocates at the end) and
  \<open>tasks\<close> is an address. \<open>then_hook\<close> says whether
  \<^verbatim>\<open>typeof this.then === 'function'\<close>. \<open>asyncBus\<close> is the work the
  asynchronous bus has in flight, \<open>stdout\<close> the lines a \<^verbatim>\<open>ProcessLogger\<close>
  has printed, \<open>cwd\<close> the value of \<^verbatim>\<open>process.cwd()\<close> and \<open>class_name\<close>
  that of \<^verbatim>\<open>ClassUtil.nameOffInstance(this)\<close>. \<open>ran\<close> is an observation
  no code reads: the tasks whose callback has been called, in the order of the calls.
\<close>

record bench =
  arrays :: "TestTask list list"
  tasks :: nat
  errors :: "js_error list"
  indent :: nat
  breakpoint :: bool
  currentTime :: int
  logger :: logger
  handleTask :: handler
  then_hook :: bool
  asyncBus :: "js_error option list"
  stdout :: "string list"
  cwd :: string
  class_name :: string
  ran :: "TestTask list"

text \<open>The array \<^verbatim>\<open>this.tasks\<close> refers to.\<close>

definition queue :: "bench \<Rightarrow> TestTask list" where
  "queue b = arrays b ! tasks b"

text \<open>Every address in use is allocated.\<close>

definition well_formed :: "bench \<Rightarrow> bool" where
  "well_formed b = (tasks b < length (arrays b))"

section \<open>Strings\<close>

text \<open>\<^verbatim>\<open>s.indexOf(pat) >= 0\<close>.\<close>

fun js_includes :: "string \<Rightarrow> string \<Rightarrow> bool" where
  "js_includes pat [] = (pat = [])"
| "js_includes pat (c # s) = (prefix pat (c # s) \<or> js_includes pat s)"

text \<open>\<^verbatim>\<open>s.replace(pat, rep)\<close> for a string \<open>pat\<close>: the first occurrence only.\<close>

fun replace :: "string \<Rightarrow> string \<Rightarrow> string \<Rightarrow> string" where
  "replace pat rep [] = (if pat = [] then rep else [])"
| "replace pat rep (c # s) =
     (if prefix pat (c # s) then rep @ drop (length pat) (c # s)
      else c # replace pat rep s)"

definition digit :: "nat \<Rightarrow> char" where
  "digit d = char_of (48 + d)"

fun decimal :: "nat \<Rightarrow> string" where
  "decimal n = (if n < 10 then [digit n] else decimal (n div 10) @ [digit (n mod 10)])"

declare decimal.simps [simp del]

text \<open>A number in a template literal; a missing one prints as \<^verbatim>\<open>undefined\<close>.\<close>

definition template_number :: "nat option \<Rightarrow> string" where
  "template_number v = (case v of None \<Rightarrow> ''undefined'' | Some n \<Rightarrow> decimal n)"

text \<open>\<^verbatim>\<open>sprintf('%-60s %s', a, b)\<close> and \<^verbatim>\<open>sprintf('%Ns', '')\<close> of extsprintf.\<close>

definition sprintf_left60 :: "string \<Rightarrow> string \<Rightarrow> string" where
  "sprintf_left60 a b = a @ replicate (60 - length a) CHR '' '' @ '' '' @ b"

definition sprintf_blank :: "nat \<Rightarrow> string" where
  "sprintf_blank n = replicate n CHR '' ''"

section \<open>Loggers\<close>

fun info :: "logger \<Rightarrow> string \<Rightarrow> string list \<Rightarrow> string list" where
  "info NullLogger msg out = out"
| "info ProcessLogger msg out = out @ [msg]"
| "info (PrefixLogger l p) msg out = info l (p @ msg) out"

definition getLogger :: "nat \<Rightarrow> bench \<Rightarrow> logger" where
  "getLogger ind b =
     (let totalIndent = indent b + ind
      in if totalIndent \<noteq> 0 then PrefixLogger (logger b) (sprintf_blank (totalIndent * 3))
         else logger b)"

section \<open>The constructor\<close>

text \<open>
  \<^verbatim>\<open>moment(date)\<close> for a \<^verbatim>\<open>Date\<close> (its time value, or none for an invalid
  date) or a string; how moment reads a string is a parameter of the model. The result
  is the time value, or \<open>None\<close> where \<^verbatim>\<open>isValid()\<close> is false.
\<close>

datatype date_input = DateObject "int option" | DateString string

definition moment :: "(string \<Rightarrow> int option) \<Rightarrow> date_input \<Rightarrow> int option" where
  "moment parse date = (case date of DateObject t \<Rightarrow> t | DateString s \<Rightarrow> parse s)"

text \<open>
  \<^verbatim>\<open>date.toString()\<close> of a date moment finds invalid: the string itself, or
  \<^verbatim>\<open>Invalid Date\<close> for a \<^verbatim>\<open>Date\<close> with no time value.
\<close>

definition toString_invalid :: "date_input \<Rightarrow> string" where
  "toString_invalid date = (case date of DateObject t \<Rightarrow> ''Invalid Date'' | DateString s \<Rightarrow> s)"

definition parseDateTime :: "(string \<Rightarrow> int option) \<Rightarrow> date_input \<Rightarrow> js_error + int" where
  "parseDateTime parse date =
     (case moment parse date of
        None \<Rightarrow> Inl (Error (''Date is not valid '' @ toString_invalid date))
      | Some t \<Rightarrow> Inr t)"

text \<open>
  \<^verbatim>\<open>new EventSourcingTestBench(currentTime)\<close> in a process with working directory
  \<open>dir\<close>, for the class named \<open>cls\<close>: the field initialisers, then the body.
\<close>

definition create :: "string \<Rightarrow> string \<Rightarrow> (string \<Rightarrow> int option) \<Rightarrow> date_input \<Rightarrow> js_error + bench" where
  "create dir cls parse date =
     (case parseDateTime parse date of
        Inl e \<Rightarrow> Inl e
      | Inr t \<Rightarrow> Inr \<lparr>arrays = [[]], tasks = 0, errors = [], indent = 0, breakpoint = False,
          currentTime = t, logger = NullLogger, handleTask = Default, then_hook = False,
          asyncBus = [], stdout = [], cwd = dir, class_name = cls, ran = []\<rparr>)"

definition defaultCurrentTime :: date_input where
  "defaultCurrentTime = DateObject (Some 0)"

section \<open>Registration\<close>

definition addPending :: "TestTask \<Rightarrow> bench \<Rightarrow> bench" where
  "addPending pending b =
     b\<lparr>arrays := (arrays b)[tasks b := arrays b ! tasks b @ [pending]], then_hook := True\<rparr>"

text \<open>The reducer of \<^verbatim>\<open>realStack.reduce\<close> in \<^verbatim>\<open>addTask\<close>.\<close>

definition count_addTask :: "nat \<Rightarrow> StackFrame \<Rightarrow> nat" where
  "count_addTask prev trace =
     (case functionName trace of
        None \<Rightarrow> prev
      | Some f \<Rightarrow> if f \<noteq> [] \<and> js_includes ''.addTask'' f then prev + 1 else prev)"

definition describe :: "string \<Rightarrow> string \<Rightarrow> StackFrame \<Rightarrow> StackFrame \<Rightarrow> string" where
  "describe directory name testFunction userFunction =
     (let fileName = (case fileName userFunction of None \<Rightarrow> [] | Some f \<Rightarrow> f);
          strippedPath = replace (directory @ ''/'') [] fileName;
          functionName = (case functionName testFunction of None \<Rightarrow> [] | Some f \<Rightarrow> f)
      in sprintf_left60
           (strippedPath @ '':'' @ template_number (lineNumber userFunction) @ '':'' @
            template_number (columnNumber userFunction))
           (replace (name @ ''.'') [] functionName))"

text \<open>
  \<^verbatim>\<open>addTask(callback, ignore)\<close>, where \<open>st\<close> is the parsed stack.
  \<^verbatim>\<open>realStack[1]\<close> is \<^verbatim>\<open>undefined\<close> when \<open>realStack\<close> has fewer than two
  frames, and reading \<^verbatim>\<open>userFunction.fileName\<close> then throws a
  \<^verbatim>\<open>TypeError\<close>, before anything is assigned.
\<close>

definition addTask :: "action list \<Rightarrow> nat \<Rightarrow> StackFrame list \<Rightarrow> bench \<Rightarrow> (js_error + unit) \<times> bench" where
  "addTask cb ignore st b =
     (let realStack = drop ignore st
      in case realStack of
           testFunction # userFunction # _ \<Rightarrow>
             (Inr (),
              addPending \<lparr>callback = cb,
                          description = describe (cwd b) (class_name b) testFunction userFunction,
                          stack = st\<rparr>
                (b\<lparr>indent := foldl count_addTask 0 realStack\<rparr>))
         | _ \<Rightarrow> (Inl (TypeError ''Cannot read property fileName of undefined''), b))"

section \<open>The checkpoint\<close>

text \<open>
  Modelled from the spec: \<^verbatim>\<open>AsynchronousDomainEventBus\<close> is not among the sources.
  Its \<^verbatim>\<open>untilIdle()\<close> suspends until no asynchronous dispatch is in flight, and
  every failure of a listener goes to the error callback given at construction, which
  in the constructor of the bench is \<^verbatim>\<open>(error) => { this.errors.push(error); }\<close>.
\<close>

definition untilIdle :: "bench \<Rightarrow> bench" where
  "untilIdle b = b\<lparr>errors := errors b @ List.map_filter id (asyncBus b), asyncBus := []\<rparr>"

definition private_thenWaitUntilProcessed :: "bench \<Rightarrow> (js_error + unit) \<times> bench" where
  "private_thenWaitUntilProcessed b =
     (let b1 = untilIdle b
      in if length (errors b1) \<noteq> 0 then (Inl (hd (errors b1)), b1\<lparr>errors := tl (errors b1)\<rparr>)
         else (Inr (), b1))"

section \<open>The assertion of \<^verbatim>\<open>throws\<close>\<close>

text \<open>
  Jest's \<^verbatim>\<open>expect(f).toThrowError(expected)\<close>, where \<open>f\<close> throws the captured
  error if there is one: it passes when \<open>f\<close> throws and, for a message, the error's
  message contains it; for a class, the error is an instance of it; for a regular
  expression, the message matches. When it does not pass it throws an error of its own.
\<close>

definition matches :: "matcher \<Rightarrow> js_error \<Rightarrow> bool" where
  "matches m e =
     (case m of
        AnyError \<Rightarrow> True
      | Message s \<Rightarrow> js_includes s (err_message e)
      | Class c \<Rightarrow> c \<in> set (err_classes e)
      | RegExp p \<Rightarrow> p (err_message e))"

definition JestAssertionError :: js_error where
  "JestAssertionError =
     Thrown [''JestAssertionError'', ''Error''] ''expect(function).toThrowError(expected)''"

definition toThrowError :: "matcher \<Rightarrow> js_error option \<Rightarrow> js_error + unit" where
  "toThrowError m thrown =
     (case thrown of
        None \<Rightarrow> Inl JestAssertionError
      | Some e \<Rightarrow> if matches m e then Inr () else Inl JestAssertionError)"

text \<open>
  The function \<^verbatim>\<open>throws\<close> hands to \<^verbatim>\<open>expect\<close>:
  \<^verbatim>\<open>() => { if (actualError) { throw actualError; } }\<close>. It throws only a truthy
  captured value.
\<close>

definition rethrow :: "js_error option \<Rightarrow> js_error option" where
  "rethrow actualError =
     (case actualError of None \<Rightarrow> None | Some Falsy \<Rightarrow> None | Some e \<Rightarrow> Some e)"

section \<open>The drain loop and the task hook\<close>

text \<open>
  The first callback \<^verbatim>\<open>thenPromise\<close> chains on the promise of
  \<^verbatim>\<open>toPromise\<close>: it runs only when that promise is fulfilled, removes
  \<^verbatim>\<open>this.then\<close> and returns \<^verbatim>\<open>this\<close>. The bench is then no thenable, so
  the promise is fulfilled with the bench itself. A rejection passes through.
\<close>

definition remove_then ::
  "((js_error + unit) \<times> bench) option \<Rightarrow> ((js_error + js_value) \<times> bench) option" where
  "remove_then r =
     (case r of
        None \<Rightarrow> None
      | Some (Inl e, b) \<Rightarrow> Some (Inl e, b)
      | Some (Inr _, b) \<Rightarrow> Some (Inr This, b\<lparr>then_hook := False\<rparr>))"

text \<open>\<^verbatim>\<open>this.getLogger().info(description)\<close> in the loop.\<close>

definition log_description :: "TestTask \<Rightarrow> bench \<Rightarrow> bench" where
  "log_description task b = b\<lparr>stdout := info (getLogger 0 b) (description task) (stdout b)\<rparr>"

text \<open>
  \<^verbatim>\<open>toPromise\<close>, its \<^verbatim>\<open>for ... of\<close> loop, a call of the hook
  \<^verbatim>\<open>this.handleTask\<close> and the run of a callback call each other. The first argument
  is fuel: a task can register tasks, and the loop reads the array while it may grow, so
  every pass through the body of the loop takes one unit of a counter, and \<open>None\<close>
  means that the counter ran out. A result is what the promise settles with, and the
  bench as it is then.

  \<open>for_of n a i b\<close> is the loop over the array at address \<open>a\<close>, about to read
  index \<open>i\<close>: the iterator of a JavaScript array compares its index with the length
  the array has at that moment.
\<close>

fun toPromise :: "nat \<Rightarrow> bench \<Rightarrow> ((js_error + unit) \<times> bench) option"
and for_of :: "nat \<Rightarrow> nat \<Rightarrow> nat \<Rightarrow> bench \<Rightarrow> ((js_error + unit) \<times> bench) option"
and call_handleTask :: "nat \<Rightarrow> handler \<Rightarrow> TestTask \<Rightarrow> bench \<Rightarrow> ((js_error + unit) \<times> bench) option"
and run_callback :: "nat \<Rightarrow> action list \<Rightarrow> bench \<Rightarrow> ((js_error + unit) \<times> bench) option"
where
  "toPromise n b =
     for_of n (tasks b) 0 (b\<lparr>arrays := arrays b @ [[]], tasks := length (arrays b)\<rparr>)"
| "for_of 0 a i b = (if i < length (arrays b ! a) then None else Some (Inr (), b))"
| "for_of (Suc n) a i b =
     (if i < length (arrays b ! a) then
        (let task = arrays b ! a ! i;
             b1 = log_description task b
         in case call_handleTask n (handleTask b1) task b1 of
              None \<Rightarrow> None
            | Some (Inl e, b2) \<Rightarrow> Some (Inl e, b2)
            | Some (Inr _, b2) \<Rightarrow>
                (case private_thenWaitUntilProcessed b2 of
                   (Inl e, b3) \<Rightarrow> Some (Inl e, b3)
                 | (Inr _, b3) \<Rightarrow>
                     (case toPromise n b3 of
                        None \<Rightarrow> None
                      | Some (Inl e, b4) \<Rightarrow> Some (Inl e, b4)
                      | Some (Inr _, b4) \<Rightarrow> for_of n a (Suc i) b4)))
      else Some (Inr (), b))"
| "call_handleTask n Default task b =
     (let b1 = (if breakpoint b then b\<lparr>breakpoint := False\<rparr> else b)
      in run_callback n (callback task) (b1\<lparr>ran := ran b1 @ [task]\<rparr>))"
| "call_handleTask n (Intercept original error) task b =
     (case (case call_handleTask n original task (b\<lparr>handleTask := original\<rparr>) of
              None \<Rightarrow> None
            | Some (Inl e, b1) \<Rightarrow> Some (Some e, b1)
            | Some (Inr _, b1) \<Rightarrow>
                (case toPromise n b1 of
                   None \<Rightarrow> None
                 | Some (Inl e, b2) \<Rightarrow> Some (Some e, b2)
                 | Some (Inr _, b2) \<Rightarrow> Some (None, b2)))
      of None \<Rightarrow> None
       | Some (actualError, b3) \<Rightarrow> Some (toThrowError error (rethrow actualError), b3))"
| "run_callback n [] b = Some (Inr (), b)"
| "run_callback n (AddTask st cb # rest) b =
     (case addTask cb 1 st b of
        (Inl e, b1) \<Rightarrow> Some (Inl e, b1)
      | (Inr _, b1) \<Rightarrow> run_callback n rest b1)"
| "run_callback n (AwaitThis # rest) b =
     (if then_hook b then
        (case remove_then (toPromise n b) of
           None \<Rightarrow> None
         | Some (Inl e, b1) \<Rightarrow> Some (Inl e, b1)
         | Some (Inr _, b1) \<Rightarrow> run_callback n rest b1)
      else run_callback n rest b)"
| "run_callback n (WaitUntilProcessed # rest) b =
     (case private_thenWaitUntilProcessed b of
        (Inl e, b1) \<Rightarrow> Some (Inl e, b1)
      | (Inr _, b1) \<Rightarrow> run_callback n rest b1)"
| "run_callback n (Throw e # rest) b = Some (Inl e, b)"
| "run_callback n (Publish r # rest) b = run_callback n rest (b\<lparr>asyncBus := asyncBus b @ [r]\<rparr>)"
| "run_callback n (SwapHandleTask error # rest) b =
     run_callback n rest (b\<lparr>handleTask := Intercept (handleTask b) error\<rparr>)"
| "run_callback n (SetBreakpoint # rest) b = run_callback n rest (b\<lparr>breakpoint := True\<rparr>)"
| "run_callback n (SetLogger l # rest) b = run_callback n rest (b\<lparr>logger := l\<rparr>)"

section \<open>Awaiting the bench\<close>

definition thenPromise :: "nat \<Rightarrow> bench \<Rightarrow> ((js_error + js_value) \<times> bench) option" where
  "thenPromise n b = remove_then (toPromise n b)"

text \<open>
  \<^verbatim>\<open>await testBench\<close>: a thenable is settled through its \<^verbatim>\<open>then\<close>; any other
  object is the value itself.
\<close>

definition await_bench :: "nat \<Rightarrow> bench \<Rightarrow> ((js_error + js_value) \<times> bench) option" where
  "await_bench n b = (if then_hook b then thenPromise n b else Some (Inr This, b))"

section \<open>The registering methods\<close>

text \<open>
  Each takes the stack parsed inside its call of \<^verbatim>\<open>addTask\<close>. \<^verbatim>\<open>throws\<close>
  calls the public \<^verbatim>\<open>thenWaitUntilProcessed\<close> inside its callback and awaits the
  bench it returns, so it takes the stack of that inner registration too.
\<close>

definition given :: "action list \<Rightarrow> StackFrame list \<Rightarrow> bench \<Rightarrow> (js_error + unit) \<times> bench" where
  "given cb st b = addTask cb 1 st b"

definition thenWaitUntilProcessed :: "StackFrame list \<Rightarrow> bench \<Rightarrow> (js_error + unit) \<times> bench" where
  "thenWaitUntilProcessed st b = addTask [WaitUntilProcessed] 1 st b"

definition throws :: "matcher \<Rightarrow> StackFrame list \<Rightarrow> StackFrame list \<Rightarrow> bench \<Rightarrow> (js_error + unit) \<times> bench" where
  "throws error st st_inner b =
     addTask [AddTask st_inner [WaitUntilProcessed], AwaitThis, SwapHandleTask error] 1 st b"


definition thenIPutABeakpoint :: "StackFrame list \<Rightarrow> bench \<Rightarrow> (js_error + unit) \<times> bench" where
  "thenIPutABeakpoint st b = addTask [SetBreakpoint] 1 st b"

section \<open>Notions the properties are stated with\<close>

text \<open>
  The errors the bus has reported or will have reported when it is idle, oldest first:
  those already pushed by the error callback, then the failures of the work in flight.
\<close>

definition reported :: "bench \<Rightarrow> js_error list" where
  "reported b = errors b @ List.map_filter id (asyncBus b)"

subsection \<open>The drain pass over a private copy\<close>

text \<open>
  The bench right after \<^verbatim>\<open>this.tasks = []\<close>: a new, empty array is the queue.
\<close>

definition with_new_queue :: "bench \<Rightarrow> bench" where
  "with_new_queue b = b\<lparr>arrays := arrays b @ [[]], tasks := length (arrays b)\<rparr>"

text \<open>
  The loop of \<^verbatim>\<open>toPromise\<close> as the specification describes it: over a private
  snapshot, a list of tasks that nothing can change while the loop runs. The body is
  that of \<open>for_of\<close>.
\<close>

fun for_each :: "nat \<Rightarrow> TestTask list \<Rightarrow> bench \<Rightarrow> ((js_error + unit) \<times> bench) option" where
  "for_each n [] b = Some (Inr (), b)"
| "for_each 0 (task # rest) b = None"
| "for_each (Suc n) (task # rest) b =
     (let b1 = log_description task b
      in case call_handleTask n (handleTask b1) task b1 of
           None \<Rightarrow> None
         | Some (Inl e, b2) \<Rightarrow> Some (Inl e, b2)
         | Some (Inr _, b2) \<Rightarrow>
             (case private_thenWaitUntilProcessed b2 of
                (Inl e, b3) \<Rightarrow> Some (Inl e, b3)
              | (Inr _, b3) \<Rightarrow>
                  (case toPromise n b3 of
                     None \<Rightarrow> None
                   | Some (Inl e, b4) \<Rightarrow> Some (Inl e, b4)
                   | Some (Inr _, b4) \<Rightarrow> for_each n rest b4)))"

subsection \<open>What a run may do to the store\<close>

text \<open>
  \<open>extends b b'\<close>: from \<open>b\<close> to \<open>b'\<close> arrays were only allocated, the queue is
  the same array or one allocated since, and every array of \<open>b\<close> other than its queue
  has kept its content. The working directory and the name of the class stay.
\<close>

definition extends :: "bench \<Rightarrow> bench \<Rightarrow> bool" where
  "extends b b' =
     (tasks b' < length (arrays b') \<and>
      length (arrays b) \<le> length (arrays b') \<and>
      (tasks b' = tasks b \<or> length (arrays b) \<le> tasks b') \<and>
      (\<forall>x < length (arrays b). x \<noteq> tasks b \<longrightarrow> arrays b' ! x = arrays b ! x) \<and>
      cwd b' = cwd b \<and> class_name b' = class_name b)"

definition framed :: "bench \<Rightarrow> ((js_error + unit) \<times> bench) option \<Rightarrow> bool" where
  "framed b x = (well_formed b \<longrightarrow> (\<forall>r b'. x = Some (r, b') \<longrightarrow> extends b b'))"

text \<open>
  \<open>with_array a xs b\<close> is \<open>b\<close> with the content of the array at \<open>a\<close> replaced. An
  address is \<open>dead\<close> when it is allocated and is not the queue. A computation \<open>f\<close> is
  \<open>blind\<close> to a dead array when replacing its content changes neither whether \<open>f\<close>
  returns, nor what it returns, nor anything of the bench but that array.
\<close>

definition with_array :: "nat \<Rightarrow> TestTask list \<Rightarrow> bench \<Rightarrow> bench" where
  "with_array a xs b = b\<lparr>arrays := (arrays b)[a := xs]\<rparr>"

definition dead :: "nat \<Rightarrow> bench \<Rightarrow> bool" where
  "dead a b = (well_formed b \<and> a < length (arrays b) \<and> a \<noteq> tasks b)"

definition blind :: "nat \<Rightarrow> TestTask list \<Rightarrow> (bench \<Rightarrow> ((js_error + 'v) \<times> bench) option) \<Rightarrow> bench \<Rightarrow> bool" where
  "blind a xs f b = (dead a b \<longrightarrow> f (with_array a xs b) = map_option (apsnd (with_array a xs)) (f b))"

subsection \<open>Fuel that suffices\<close>

text \<open>
  The number of tasks a list of actions can register, directly or through the callbacks
  of the tasks it registers, and the same for the tasks of a queue, each counted too.
\<close>

fun count_actions :: "action list \<Rightarrow> nat" where
  "count_actions [] = 0"
| "count_actions (AddTask st cb # rest) = Suc (count_actions cb) + count_actions rest"
| "count_actions (x # rest) = count_actions rest"

definition count_task :: "TestTask \<Rightarrow> nat" where
  "count_task t = Suc (count_actions (callback t))"

definition count_tasks :: "TestTask list \<Rightarrow> nat" where
  "count_tasks ts = sum_list (map count_task ts)"

text \<open>
  \<open>returns k l b x\<close>: the computation \<open>x\<close>, started in \<open>b\<close>, returns, leaving in
  the queue at most \<open>k\<close> (when it succeeds) or \<open>l\<close> (when it fails) countable tasks
  more than the queue of \<open>b\<close> had. The four statements of termination follow: each
  says that fuel of at least the count of the tasks at hand makes the function return.
\<close>

definition returns ::
  "nat \<Rightarrow> nat \<Rightarrow> bench \<Rightarrow> ((js_error + unit) \<times> bench) option \<Rightarrow> bool" where
  "returns ok_bound err_bound b x =
     (\<exists>r b'. x = Some (r, b') \<and>
        count_tasks (queue b') \<le> (case r of Inr u \<Rightarrow> ok_bound | Inl e \<Rightarrow> err_bound) + count_tasks (queue b))"

definition drain_returns :: "nat \<Rightarrow> bench \<Rightarrow> bool" where
  "drain_returns n b =
     (well_formed b \<and> count_tasks (queue b) \<le> n \<longrightarrow>
      (\<exists>r b'. toPromise n b = Some (r, b') \<and>
         (case r of Inr u \<Rightarrow> queue b' = [] | Inl e \<Rightarrow> count_tasks (queue b') \<le> count_tasks (queue b))))"

definition loop_returns :: "nat \<Rightarrow> TestTask list \<Rightarrow> bench \<Rightarrow> bool" where
  "loop_returns n ts b =
     (well_formed b \<and> count_tasks ts + count_tasks (queue b) \<le> n \<longrightarrow>
      returns 0 (count_tasks ts) b (for_each n ts b))"

definition hook_returns :: "nat \<Rightarrow> handler \<Rightarrow> TestTask \<Rightarrow> bench \<Rightarrow> bool" where
  "hook_returns n h t b =
     (well_formed b \<and> count_actions (callback t) + count_tasks (queue b) \<le> n \<longrightarrow>
      returns (count_actions (callback t)) (count_actions (callback t)) b (call_handleTask n h t b))"

definition callback_returns :: "nat \<Rightarrow> action list \<Rightarrow> bench \<Rightarrow> bool" where
  "callback_returns n as b =
     (well_formed b \<and> count_actions as + count_tasks (queue b) \<le> n \<longrightarrow>
      returns (count_actions as) (count_actions as) b (run_callback n as b))"

text \<open>
  \<open>more_fuel x y\<close>: what \<open>x\<close> returns, \<open>y\<close> returns too; \<open>y\<close> will be the same
  computation with more fuel.
\<close>

definition more_fuel :: "('a option) \<Rightarrow> ('a option) \<Rightarrow> bool" where
  "more_fuel x y = (\<forall>v. x = Some v \<longrightarrow> y = Some v)"

subsection \<open>Depth-first order\<close>

text \<open>
  The task \<^verbatim>\<open>addTask\<close> builds from a stack and a callback in directory \<open>d\<close>
  for the class \<open>c\<close>, and the depth-first flattening of the specification: a task,
  then the tasks its callback registers, each followed by its own, in the order of
  registration; then the next task.
\<close>

definition registered :: "string \<Rightarrow> string \<Rightarrow> StackFrame list \<Rightarrow> action list \<Rightarrow> TestTask" where
  "registered d c st cb =
     \<lparr>callback = cb,
      description = (case drop 1 st of tf # uf # frames \<Rightarrow> describe d c tf uf | _ \<Rightarrow> []),
      stack = st\<rparr>"

fun depth_first_actions :: "string \<Rightarrow> string \<Rightarrow> action list \<Rightarrow> TestTask list" where
  "depth_first_actions d c [] = []"
| "depth_first_actions d c (AddTask st cb # rest) =
     registered d c st cb # depth_first_actions d c cb @ depth_first_actions d c rest"
| "depth_first_actions d c (x # rest) = depth_first_actions d c rest"

definition depth_first_task :: "string \<Rightarrow> string \<Rightarrow> TestTask \<Rightarrow> TestTask list" where
  "depth_first_task d c t = t # depth_first_actions d c (callback t)"

definition depth_first :: "string \<Rightarrow> string \<Rightarrow> TestTask list \<Rightarrow> TestTask list" where
  "depth_first d c ts = concat (map (depth_first_task d c) ts)"

text \<open>
  Callbacks that never replace the hook (no \<^verbatim>\<open>throws\<close>), and a bench with the
  hook of the class whose queued tasks are such.
\<close>

fun plain_actions :: "action list \<Rightarrow> bool" where
  "plain_actions [] = True"
| "plain_actions (AddTask st cb # rest) = (plain_actions cb \<and> plain_actions rest)"
| "plain_actions (SwapHandleTask m # rest) = False"
| "plain_actions (x # rest) = plain_actions rest"

definition plain_tasks :: "TestTask list \<Rightarrow> bool" where
  "plain_tasks ts = list_all (\<lambda>t. plain_actions (callback t)) ts"

definition plain_bench :: "string \<Rightarrow> string \<Rightarrow> bench \<Rightarrow> bool" where
  "plain_bench d c b =
     (well_formed b \<and> handleTask b = Default \<and> plain_tasks (queue b) \<and> cwd b = d \<and> class_name b = c)"

text \<open>
  The invariants of the order. \<open>ordered d c base x\<close>: if \<open>x\<close> returns, then on
  success what has run followed by the flattening of the queue is \<open>base\<close>, and on
  failure what has run is a prefix of \<open>base\<close>. \<open>drained\<close> is the same with an empty
  queue.
\<close>

definition ordered ::
  "string \<Rightarrow> string \<Rightarrow> TestTask list \<Rightarrow> ((js_error + unit) \<times> bench) option \<Rightarrow> bool" where
  "ordered d c base x =
     (\<forall>r b'. x = Some (r, b') \<longrightarrow>
        (case r of
           Inr u \<Rightarrow> plain_bench d c b' \<and> ran b' @ depth_first d c (queue b') = base
         | Inl e \<Rightarrow> prefix (ran b') base))"

definition drained ::
  "string \<Rightarrow> string \<Rightarrow> TestTask list \<Rightarrow> ((js_error + unit) \<times> bench) option \<Rightarrow> bool" where
  "drained d c base x =
     (\<forall>r b'. x = Some (r, b') \<longrightarrow>
        (case r of
           Inr u \<Rightarrow> plain_bench d c b' \<and> queue b' = [] \<and> ran b' = base
         | Inl e \<Rightarrow> prefix (ran b') base))"

definition drain_ordered :: "string \<Rightarrow> string \<Rightarrow> nat \<Rightarrow> bench \<Rightarrow> bool" where
  "drain_ordered d c n b =
     (plain_bench d c b \<longrightarrow> drained d c (ran b @ depth_first d c (queue b)) (toPromise n b))"

definition loop_ordered :: "string \<Rightarrow> string \<Rightarrow> nat \<Rightarrow> TestTask list \<Rightarrow> bench \<Rightarrow> bool" where
  "loop_ordered d c n ts b =
     (plain_bench d c b \<and> queue b = [] \<and> plain_tasks ts \<longrightarrow>
      drained d c (ran b @ depth_first d c ts) (for_each n ts b))"

definition hook_ordered :: "string \<Rightarrow> string \<Rightarrow> nat \<Rightarrow> handler \<Rightarrow> TestTask \<Rightarrow> bench \<Rightarrow> bool" where
  "hook_ordered d c n h t b =
     (h = Default \<and> plain_bench d c b \<and> plain_actions (callback t) \<longrightarrow>
      ordered d c (ran b @ [t] @ depth_first d c (queue b) @ depth_first_actions d c (callback t))
        (call_handleTask n h t b))"

definition callback_ordered :: "string \<Rightarrow> string \<Rightarrow> nat \<Rightarrow> action list \<Rightarrow> bench \<Rightarrow> bool" where
  "callback_ordered d c n as b =
     (plain_bench d c b \<and> plain_actions as \<longrightarrow>
      ordered d c (ran b @ depth_first d c (queue b) @ depth_first_actions d c as)
        (run_callback n as b))"

subsection \<open>Concrete benches\<close>

text \<open>
  Stacks as V8 reports them for a registering method called in \<^verbatim>\<open>test/bench.test.ts\<close>:
  at the top level of a test, and from inside the callback of a task (which V8 names after
  the call it is an argument of, \<^verbatim>\<open>EventSourcingTestBench.addTask\<close>).
\<close>

definition frame :: "string \<Rightarrow> string \<Rightarrow> nat \<Rightarrow> nat \<Rightarrow> StackFrame" where
  "frame f file l c =
     \<lparr>functionName = Some f, fileName = Some file, lineNumber = Some l, columnNumber = Some c\<rparr>"

definition stack_at :: "string \<Rightarrow> nat \<Rightarrow> StackFrame list" where
  "stack_at method l =
     [frame ''EventSourcingTestBench.addTask'' ''/app/src/Testing/EventSourcingTestBench.ts'' 769 19,
      frame (''EventSourcingTestBench.'' @ method) ''/app/src/Testing/EventSourcingTestBench.ts'' 350 17,
      frame ''Object.<anonymous>'' ''/app/test/bench.test.ts'' l 8]"

definition nested_stack_at :: "string \<Rightarrow> nat \<Rightarrow> StackFrame list" where
  "nested_stack_at method l =
     [frame ''EventSourcingTestBench.addTask'' ''/app/src/Testing/EventSourcingTestBench.ts'' 769 19,
      frame (''EventSourcingTestBench.'' @ method) ''/app/src/Testing/EventSourcingTestBench.ts'' 350 17,
      frame ''EventSourcingTestBench.addTask'' ''/app/test/bench.test.ts'' l 8,
      frame ''EventSourcingTestBench.handleTask'' ''/app/src/Testing/EventSourcingTestBench.ts'' 809 46]"

text \<open>The bench \<^verbatim>\<open>EventSourcingTestBench.create()\<close> returns in \<^verbatim>\<open>/app\<close>.\<close>

definition new_bench :: bench where
  "new_bench =
     \<lparr>arrays = [[]], tasks = 0, errors = [], indent = 0, breakpoint = False,
      currentTime = 0, logger = NullLogger, handleTask = Default, then_hook = False,
      asyncBus = [], stdout = [], cwd = ''/app'', class_name = ''EventSourcingTestBench'',
      ran = []\<rparr>"

text \<open>
  One task, registered by \<^verbatim>\<open>given\<close> at line 10, whose callback registers a task (line
  11) and then throws.
\<close>

definition failing_chain :: bench where
  "failing_chain =
     snd (given [AddTask (nested_stack_at ''given'' 11) [], Throw (Error ''boom'')]
            (stack_at ''given'' 10) new_bench)"

text \<open>
  Two tasks registered at the top level, at lines 10 and 20; the callback of the first
  registers two tasks, at lines 11 and 12.
\<close>

definition depth_first_chain :: bench where
  "depth_first_chain =
     snd (given [] (stack_at ''given'' 20)
       (snd (given [AddTask (nested_stack_at ''given'' 11) [], AddTask (nested_stack_at ''given'' 12) []]
               (stack_at ''given'' 10) new_bench)))"

text \<open>\<open>failing_chain\<close> followed by a task registered at line 20.\<close>

definition aborted_chain :: bench where
  "aborted_chain = snd (given [] (stack_at ''given'' 20) failing_chain)"

text \<open>The line of the test file at which a task of these benches was registered.\<close>

definition registration_line :: "TestTask \<Rightarrow> nat option" where
  "registration_line t = lineNumber (stack t ! 2)"

text \<open>
  A chain that expects a failure: \<^verbatim>\<open>throws(m)\<close> at line 10 (its callback calls
  \<^verbatim>\<open>thenWaitUntilProcessed\<close> at line 370 of the class), then \<^verbatim>\<open>given\<close> at
  lines 20 and 30 with the callbacks \<open>step\<close> and \<open>next_step\<close>.
\<close>

definition expecting_chain :: "matcher \<Rightarrow> action list \<Rightarrow> action list \<Rightarrow> bench" where
  "expecting_chain m step next_step =
     snd (given next_step (stack_at ''given'' 30)
       (snd (given step (stack_at ''given'' 20)
         (snd (throws m (stack_at ''throws'' 10) (nested_stack_at ''thenWaitUntilProcessed'' 370)
                new_bench)))))"

text \<open>
  \<^verbatim>\<open>throws('boom')\<close>, then a step that registers two tasks, at lines 21 and 22, the
  first of which throws \<^verbatim>\<open>Error('boom')\<close>; then a step at line 30.
\<close>

definition trapped_nested_chain :: bench where
  "trapped_nested_chain =
     expecting_chain (Message ''boom'')
       [AddTask (nested_stack_at ''given'' 21) [Throw (Error ''boom'')],
        AddTask (nested_stack_at ''given'' 22) []]
       []"

text \<open>\<^verbatim>\<open>throws('boom')\<close>, then a step that throws \<^verbatim>\<open>Error('boom')\<close>, then a step.\<close>

definition trapped_step_chain :: bench where
  "trapped_step_chain = expecting_chain (Message ''boom'') [Throw (Error ''boom'')] []"







text \<open>The task \<^verbatim>\<open>addTask\<close> builds on the bench \<open>b\<close> from a stack of three frames or more.\<close>

definition task_at :: "StackFrame list \<Rightarrow> action list \<Rightarrow> bench \<Rightarrow> TestTask" where
  "task_at st cb b =
     \<lparr>callback = cb, description = describe (cwd b) (class_name b) (st ! 1) (st ! 2), stack = st\<rparr>"

section \<open>Properties\<close>

lemma new_bench_created:
  "create ''/app'' ''EventSourcingTestBench'' parse defaultCurrentTime = Inr new_bench"
  by (simp add: create_def parseDateTime_def moment_def defaultCurrentTime_def new_bench_def)

subsection \<open>Induction over the four functions of the drain loop\<close>

text \<open>
  An invariant of the drain loop is proved for the four functions at once: by induction
  on the fuel, and at each amount of fuel first for the loop, then for
  \<^verbatim>\<open>toPromise\<close>, then for callbacks by induction on their actions, then for the hook
  by induction on the chain of replaced hooks.
\<close>

lemma drain_induct:
  fixes Pt :: "nat \<Rightarrow> bench \<Rightarrow> bool"
    and Pf :: "nat \<Rightarrow> nat \<Rightarrow> nat \<Rightarrow> bench \<Rightarrow> bool"
    and Ph :: "nat \<Rightarrow> handler \<Rightarrow> TestTask \<Rightarrow> bench \<Rightarrow> bool"
    and Pr :: "nat \<Rightarrow> action list \<Rightarrow> bench \<Rightarrow> bool"
  assumes drain: "\<And>n b. (\<And>a i b'. Pf n a i b') \<Longrightarrow> Pt n b"
    and loop0: "\<And>a i b. Pf 0 a i b"
    and loop: "\<And>n a i b. (\<And>h t b'. Ph n h t b') \<Longrightarrow> (\<And>b'. Pt n b') \<Longrightarrow>
                 (\<And>a' i' b'. Pf n a' i' b') \<Longrightarrow> Pf (Suc n) a i b"
    and hook: "\<And>n t b. (\<And>as b'. Pr n as b') \<Longrightarrow> Ph n Default t b"
    and trap: "\<And>n h m t b. (\<And>t' b'. Ph n h t' b') \<Longrightarrow> (\<And>b'. Pt n b') \<Longrightarrow>
                 Ph n (Intercept h m) t b"
    and nil: "\<And>n b. Pr n [] b"
    and act: "\<And>n x as b. (\<And>b'. Pr n as b') \<Longrightarrow> (\<And>b'. Pt n b') \<Longrightarrow> Pr n (x # as) b"
  shows "Pt n b \<and> Pf n a i b \<and> Ph n h t b \<and> Pr n as b"
proof -
  have all: "(\<forall>b. Pt n b) \<and> (\<forall>a i b. Pf n a i b) \<and> (\<forall>h t b. Ph n h t b) \<and> (\<forall>as b. Pr n as b)"
  proof (induction n)
    case 0
    have f: "\<And>a i b. Pf 0 a i b" by (rule loop0)
    have t: "\<And>b. Pt 0 b" by (rule drain) (rule f)
    have r: "\<And>as b. Pr 0 as b"
    proof -
      fix as b show "Pr 0 as b"
        by (induction as arbitrary: b) (auto intro: nil act t)
    qed
    have h: "\<And>h t b. Ph 0 h t b"
    proof -
      fix h t b show "Ph 0 h t b"
        by (induction h arbitrary: t b) (auto intro: hook trap r t)
    qed
    from f t r h show ?case by blast
  next
    case (Suc n)
    have f: "\<And>a i b. Pf (Suc n) a i b" using Suc by (intro loop) blast+
    have t: "\<And>b. Pt (Suc n) b" by (rule drain) (rule f)
    have r: "\<And>as b. Pr (Suc n) as b"
    proof -
      fix as b show "Pr (Suc n) as b"
        by (induction as arbitrary: b) (auto intro: nil act t)
    qed
    have h: "\<And>h t b. Ph (Suc n) h t b"
    proof -
      fix h t b show "Ph (Suc n) h t b"
        by (induction h arbitrary: t b) (auto intro: hook trap r t)
    qed
    from f t r h show ?case by blast
  qed
  then show ?thesis by blast
qed

subsection \<open>The frame of a run\<close>

lemma extends_same:
  "well_formed b \<Longrightarrow> arrays b' = arrays b \<Longrightarrow> tasks b' = tasks b \<Longrightarrow> cwd b' = cwd b \<Longrightarrow>
   class_name b' = class_name b \<Longrightarrow> extends b b'"
  by (simp add: extends_def well_formed_def)

lemma extends_trans:
  assumes "extends b b1" and "extends b1 b2"
  shows "extends b b2"
proof -
  have 1: "length (arrays b) \<le> length (arrays b1)" "tasks b1 = tasks b \<or> length (arrays b) \<le> tasks b1"
    and 2: "\<And>x. x < length (arrays b) \<Longrightarrow> x \<noteq> tasks b \<Longrightarrow> arrays b1 ! x = arrays b ! x"
    and 3: "cwd b1 = cwd b" "class_name b1 = class_name b"
    using assms(1) by (auto simp: extends_def)
  have 4: "tasks b2 < length (arrays b2)" "length (arrays b1) \<le> length (arrays b2)"
      "tasks b2 = tasks b1 \<or> length (arrays b1) \<le> tasks b2"
    and 5: "\<And>x. x < length (arrays b1) \<Longrightarrow> x \<noteq> tasks b1 \<Longrightarrow> arrays b2 ! x = arrays b1 ! x"
    and 6: "cwd b2 = cwd b1" "class_name b2 = class_name b1"
    using assms(2) by (auto simp: extends_def)
  have a: "length (arrays b) \<le> length (arrays b2)" using 1(1) 4(2) by simp
  have b: "tasks b2 = tasks b \<or> length (arrays b) \<le> tasks b2" using 1 4(3) by auto
  have c: "arrays b2 ! x = arrays b ! x" if "x < length (arrays b)" "x \<noteq> tasks b" for x
  proof -
    have "x < length (arrays b1)" using that(1) 1(1) by simp
    moreover have "x \<noteq> tasks b1" using that 1(2) by auto
    ultimately have "arrays b2 ! x = arrays b1 ! x" by (rule 5)
    then show ?thesis using 2 [OF that] by simp
  qed
  show ?thesis unfolding extends_def using 4(1) a b c 3 6 by simp
qed


lemma extends_wf: "extends b b' \<Longrightarrow> well_formed b'"
  by (simp add: extends_def well_formed_def)

lemma extends_alloc:
  "well_formed b \<Longrightarrow> extends b (b\<lparr>arrays := arrays b @ [[]], tasks := length (arrays b)\<rparr>)"
  by (simp add: extends_def well_formed_def nth_append)

lemma extends_addPending: "well_formed b \<Longrightarrow> extends b (addPending t b)"
  by (simp add: extends_def well_formed_def addPending_def)

lemma extends_addTask:
  "well_formed b \<Longrightarrow> addTask cb ig st b = (r, b') \<Longrightarrow> extends b b'"
  by (auto simp add: addTask_def Let_def extends_def well_formed_def addPending_def
      split: list.splits)

lemma checkpoint_store:
  "private_thenWaitUntilProcessed b = (r, b') \<Longrightarrow>
   arrays b' = arrays b \<and> tasks b' = tasks b \<and> cwd b' = cwd b \<and> class_name b' = class_name b \<and>
   ran b' = ran b \<and> stdout b' = stdout b \<and> handleTask b' = handleTask b \<and>
   then_hook b' = then_hook b \<and> indent b' = indent b \<and> logger b' = logger b"
  by (auto simp add: private_thenWaitUntilProcessed_def untilIdle_def Let_def split: if_splits)

lemma extends_checkpoint:
  "well_formed b \<Longrightarrow> private_thenWaitUntilProcessed b = (r, b') \<Longrightarrow> extends b b'"
  by (rule extends_same) (auto dest: checkpoint_store)

lemma extends_log: "well_formed b \<Longrightarrow> extends b (log_description t b)"
  by (rule extends_same) (auto simp: log_description_def)

lemma remove_then_Some:
  "remove_then x = Some (r, b') \<Longrightarrow>
   (\<exists>e. x = Some (Inl e, b') \<and> r = Inl e) \<or> (\<exists>b1. x = Some (Inr (), b1) \<and> r = Inr This \<and> b' = b1\<lparr>then_hook := False\<rparr>)"
  by (auto simp: remove_then_def split: option.splits sum.splits prod.splits)

lemma frame_drain:
  assumes f: "\<And>a i b'. framed b' (for_of n a i b')"
  shows "framed b (toPromise n b)"
  unfolding framed_def
proof (intro impI allI)
  fix r b'
  assume wf: "well_formed b" and run: "toPromise n b = Some (r, b')"
  define b0 where "b0 = b\<lparr>arrays := arrays b @ [[]], tasks := length (arrays b)\<rparr>"
  have e0: "extends b b0" using wf unfolding b0_def by (rule extends_alloc)
  have "for_of n (tasks b) 0 b0 = Some (r, b')" using run by (simp add: b0_def)
  then have "extends b0 b'" using f [of b0 "tasks b" 0] e0 by (auto simp: framed_def dest: extends_wf)
  with e0 show "extends b b'" by (rule extends_trans)
qed

lemma frame_loop0: "framed b (for_of 0 a i b)"
  by (auto simp: framed_def extends_same split: if_splits)

lemma frame_loop:
  assumes h: "\<And>h t b'. framed b' (call_handleTask n h t b')"
    and t: "\<And>b'. framed b' (toPromise n b')"
    and f: "\<And>a' i' b'. framed b' (for_of n a' i' b')"
  shows "framed b (for_of (Suc n) a i b)"
  unfolding framed_def
proof (intro impI allI)
  fix r b'
  assume wf: "well_formed b" and run: "for_of (Suc n) a i b = Some (r, b')"
  show "extends b b'"
  proof (cases "i < length (arrays b ! a)")
    case False
    with run wf show ?thesis by (simp add: extends_same)
  next
    case True
    define task where "task = arrays b ! a ! i"
    define b1 where "b1 = log_description task b"
    have e1: "extends b b1" using wf by (simp add: b1_def extends_log)
    from run True have run': "(case call_handleTask n (handleTask b1) task b1 of
              None \<Rightarrow> None
            | Some (Inl e, b2) \<Rightarrow> Some (Inl e, b2)
            | Some (Inr _, b2) \<Rightarrow>
                (case private_thenWaitUntilProcessed b2 of
                   (Inl e, b3) \<Rightarrow> Some (Inl e, b3)
                 | (Inr _, b3) \<Rightarrow>
                     (case toPromise n b3 of
                        None \<Rightarrow> None
                      | Some (Inl e, b4) \<Rightarrow> Some (Inl e, b4)
                      | Some (Inr _, b4) \<Rightarrow> for_of n a (Suc i) b4))) = Some (r, b')"
      by (simp add: task_def b1_def Let_def del: toPromise.simps)
    obtain r2 b2 where c: "call_handleTask n (handleTask b1) task b1 = Some (r2, b2)"
      using run' by (cases "call_handleTask n (handleTask b1) task b1") auto
    have "extends b1 b2" using h [of b1 "handleTask b1" task] c e1 by (auto simp: framed_def dest: extends_wf)
    with e1 have e2: "extends b b2" by (rule extends_trans)
    show ?thesis
    proof (cases r2)
      case (Inl e)
      with run' c have "b' = b2" by simp
      with e2 show ?thesis by simp
    next
      case (Inr u)
      obtain r3 b3 where w: "private_thenWaitUntilProcessed b2 = (r3, b3)" by force
      have "extends b2 b3" using w e2 by (auto intro: extends_checkpoint dest: extends_wf)
      with e2 have e3: "extends b b3" by (rule extends_trans)
      show ?thesis
      proof (cases r3)
        case (Inl e)
        with run' c Inr w have "b' = b3" by simp
        with e3 show ?thesis by simp
      next
        case r3: (Inr u3)
        obtain r4 b4 where d: "toPromise n b3 = Some (r4, b4)"
          using run' c Inr w r3 by (cases "toPromise n b3") (auto simp del: toPromise.simps)
        have "extends b3 b4" using t [of b3] d e3 by (auto simp: framed_def dest: extends_wf simp del: toPromise.simps)
        with e3 have e4: "extends b b4" by (rule extends_trans)
        show ?thesis
        proof (cases r4)
          case (Inl e)
          with run' c Inr w r3 d have "b' = b4" by (simp del: toPromise.simps)
          with e4 show ?thesis by simp
        next
          case r4: (Inr u4)
          with run' c Inr w r3 d have "for_of n a (Suc i) b4 = Some (r, b')"
            by (simp del: toPromise.simps)
          then have "extends b4 b'" using f [of b4 a "Suc i"] e4 by (auto simp: framed_def dest: extends_wf)
          with e4 show ?thesis by (rule extends_trans)
        qed
      qed
    qed
  qed
qed

lemma frame_hook:
  assumes r: "\<And>as b'. framed b' (run_callback n as b')"
  shows "framed b (call_handleTask n Default t b)"
  unfolding framed_def
proof (intro impI allI)
  fix r' b'
  assume wf: "well_formed b" and run: "call_handleTask n Default t b = Some (r', b')"
  define b0 where "b0 = (if breakpoint b then b\<lparr>breakpoint := False\<rparr> else b)"
  define b1 where "b1 = b0\<lparr>ran := ran b0 @ [t]\<rparr>"
  have e1: "extends b b1" using wf by (intro extends_same) (auto simp: b1_def b0_def)
  have "run_callback n (callback t) b1 = Some (r', b')" using run by (simp add: b1_def b0_def Let_def)
  then have "extends b1 b'" using r [of b1 "callback t"] e1 by (auto simp: framed_def dest: extends_wf)
  with e1 show "extends b b'" by (rule extends_trans)
qed

lemma frame_trap:
  assumes h: "\<And>t' b'. framed b' (call_handleTask n h t' b')"
    and t: "\<And>b'. framed b' (toPromise n b')"
  shows "framed b (call_handleTask n (Intercept h m) t b)"
  unfolding framed_def
proof (intro impI allI)
  fix r' b'
  assume wf: "well_formed b" and run: "call_handleTask n (Intercept h m) t b = Some (r', b')"
  define b0 where "b0 = b\<lparr>handleTask := h\<rparr>"
  have e0: "extends b b0" using wf by (intro extends_same) (auto simp: b0_def)
  note run' = run [simplified call_handleTask.simps, folded b0_def]
  obtain r1 b1 where c: "call_handleTask n h t b0 = Some (r1, b1)"
    using run' by (cases "call_handleTask n h t b0") (auto simp del: toPromise.simps)
  have "extends b0 b1" using h [of b0 t] c e0 by (auto simp: framed_def dest: extends_wf)
  with e0 have e1: "extends b b1" by (rule extends_trans)
  show "extends b b'"
  proof (cases r1)
    case (Inl e)
    with run' c have "b' = b1" by (simp del: toPromise.simps)
    with e1 show ?thesis by simp
  next
    case (Inr u)
    obtain r2 b2 where d: "toPromise n b1 = Some (r2, b2)"
      using run' c Inr by (cases "toPromise n b1") (auto simp del: toPromise.simps)
    have "extends b1 b2" using t [of b1] d e1 by (auto simp: framed_def dest: extends_wf simp del: toPromise.simps)
    with e1 have e2: "extends b b2" by (rule extends_trans)
    have "b' = b2" using run' c Inr d by (cases r2) (auto simp del: toPromise.simps)
    with e2 show ?thesis by simp
  qed
qed

lemma frame_nil: "framed b (run_callback n [] b)"
  by (auto simp: framed_def extends_same)

lemma frame_act:
  assumes r: "\<And>b'. framed b' (run_callback n as b')"
    and t: "\<And>b'. framed b' (toPromise n b')"
  shows "framed b (run_callback n (x # as) b)"
  unfolding framed_def
proof (intro impI allI)
  fix r' b'
  assume wf: "well_formed b" and run: "run_callback n (x # as) b = Some (r', b')"
  have rest: "extends b b'" if e: "extends b b1" and q: "run_callback n as b1 = Some (r', b')" for b1
  proof -
    have "extends b1 b'" using r [of b1] e q by (auto simp: framed_def dest: extends_wf)
    with e show "extends b b'" by (rule extends_trans)
  qed
  show "extends b b'"
  proof (cases x)
    case (AddTask st cb)
    obtain r1 b1 where a: "addTask cb 1 st b = (r1, b1)" by force
    have e1: "extends b b1" using wf a by (rule extends_addTask)
    show ?thesis
    proof (cases r1)
      case (Inl e)
      with run AddTask a e1 show ?thesis by simp
    next
      case (Inr u)
      with run AddTask a have "run_callback n as b1 = Some (r', b')" by simp
      with e1 show ?thesis by (rule rest)
    qed
  next
    case AwaitThis
    show ?thesis
    proof (cases "then_hook b")
      case False
      with run AwaitThis have "run_callback n as b = Some (r', b')" by (simp del: toPromise.simps)
      with wf show ?thesis by (intro rest [of b]) (auto intro: extends_same)
    next
      case True
      with run AwaitThis have run': "(case remove_then (toPromise n b) of
           None \<Rightarrow> None
         | Some (Inl e, b1) \<Rightarrow> Some (Inl e, b1)
         | Some (Inr _, b1) \<Rightarrow> run_callback n as b1) = Some (r', b')"
        by (simp del: toPromise.simps)
      obtain r1 b1 where d: "remove_then (toPromise n b) = Some (r1, b1)"
        using run' by (cases "remove_then (toPromise n b)") auto
      from remove_then_Some [OF d] have e1: "extends b b1"
      proof
        assume "\<exists>e. toPromise n b = Some (Inl e, b1) \<and> r1 = Inl e"
        then show ?thesis using t [of b] wf by (auto simp: framed_def simp del: toPromise.simps)
      next
        assume "\<exists>b2. toPromise n b = Some (Inr (), b2) \<and> r1 = Inr This \<and> b1 = b2\<lparr>then_hook := False\<rparr>"
        then obtain b2 where p: "toPromise n b = Some (Inr (), b2)" and b1: "b1 = b2\<lparr>then_hook := False\<rparr>" by blast
        have e2: "extends b b2" using t [of b] wf p by (auto simp: framed_def simp del: toPromise.simps)
        then have "extends b2 b1" by (intro extends_same) (auto simp: b1 dest: extends_wf)
        with e2 show ?thesis by (rule extends_trans)
      qed
      show ?thesis
      proof (cases r1)
        case (Inl e)
        with run' d e1 show ?thesis by simp
      next
        case (Inr u)
        with run' d have "run_callback n as b1 = Some (r', b')" by simp
        with e1 show ?thesis by (rule rest)
      qed
    qed
  next
    case WaitUntilProcessed
    obtain r1 b1 where w: "private_thenWaitUntilProcessed b = (r1, b1)" by force
    have e1: "extends b b1" using wf w by (rule extends_checkpoint)
    show ?thesis
    proof (cases r1)
      case (Inl e)
      with run WaitUntilProcessed w e1 show ?thesis by simp
    next
      case (Inr u)
      with run WaitUntilProcessed w have "run_callback n as b1 = Some (r', b')" by simp
      with e1 show ?thesis by (rule rest)
    qed
  next
    case (Throw e)
    with run wf show ?thesis by (auto intro: extends_same)
  next
    case (Publish p)
    with run have "run_callback n as (b\<lparr>asyncBus := asyncBus b @ [p]\<rparr>) = Some (r', b')" by simp
    with wf show ?thesis by (intro rest [of "b\<lparr>asyncBus := asyncBus b @ [p]\<rparr>"]) (auto intro: extends_same)
  next
    case (SwapHandleTask m)
    with run have "run_callback n as (b\<lparr>handleTask := Intercept (handleTask b) m\<rparr>) = Some (r', b')" by simp
    with wf show ?thesis by (intro rest [of "b\<lparr>handleTask := Intercept (handleTask b) m\<rparr>"]) (auto intro: extends_same)
  next
    case SetBreakpoint
    with run have "run_callback n as (b\<lparr>breakpoint := True\<rparr>) = Some (r', b')" by simp
    with wf show ?thesis by (intro rest [of "b\<lparr>breakpoint := True\<rparr>"]) (auto intro: extends_same)
  next
    case (SetLogger l)
    with run have "run_callback n as (b\<lparr>logger := l\<rparr>) = Some (r', b')" by simp
    with wf show ?thesis by (intro rest [of "b\<lparr>logger := l\<rparr>"]) (auto intro: extends_same)
  qed
qed

lemma frame_all:
  "framed b (toPromise n b) \<and> framed b (for_of n a i b) \<and> framed b (call_handleTask n h t b) \<and>
   framed b (run_callback n as b)"
  by (rule drain_induct [where Pt = "\<lambda>n b. framed b (toPromise n b)"
      and Pf = "\<lambda>n a i b. framed b (for_of n a i b)"
      and Ph = "\<lambda>n h t b. framed b (call_handleTask n h t b)"
      and Pr = "\<lambda>n as b. framed b (run_callback n as b)"])
    (fact frame_drain frame_loop0 frame_loop frame_hook frame_trap frame_nil frame_act)+

subsection \<open>The live loop is the loop over a private copy\<close>

lemmas frame_toPromise = frame_all [THEN conjunct1, unfolded framed_def, rule_format]
lemmas frame_for_of = frame_all [THEN conjunct2, THEN conjunct1, unfolded framed_def, rule_format]
lemmas frame_call_handleTask = frame_all [THEN conjunct2, THEN conjunct2, THEN conjunct1, unfolded framed_def, rule_format]
lemmas frame_run_callback = frame_all [THEN conjunct2, THEN conjunct2, THEN conjunct2, unfolded framed_def, rule_format]


lemma extends_keeps:
  "extends b b' \<Longrightarrow> a < length (arrays b) \<Longrightarrow> a \<noteq> tasks b \<Longrightarrow>
   arrays b' ! a = arrays b ! a \<and> a < length (arrays b') \<and> a \<noteq> tasks b'"
  by (auto simp: extends_def)

lemma for_of_is_for_each:
  "well_formed b \<Longrightarrow> a < length (arrays b) \<Longrightarrow> a \<noteq> tasks b \<Longrightarrow>
   for_of n a i b = for_each n (drop i (arrays b ! a)) b"
proof (induction n arbitrary: i b)
  case 0
  show ?case
  proof (cases "i < length (arrays b ! a)")
    case True
    then show ?thesis by (simp add: Cons_nth_drop_Suc [symmetric])
  next
    case False
    then show ?thesis by simp
  qed
next
  case (Suc n)
  show ?case
  proof (cases "i < length (arrays b ! a)")
    case False
    then show ?thesis by simp
  next
    case True
    define task where "task = arrays b ! a ! i"
    define b1 where "b1 = log_description task b"
    have d: "drop i (arrays b ! a) = task # drop (Suc i) (arrays b ! a)"
      using True by (simp add: task_def Cons_nth_drop_Suc)
    have e1: "extends b b1" using Suc.prems(1) by (simp add: b1_def extends_log)
    have tail: "for_of n a (Suc i) b4 = for_each n (drop (Suc i) (arrays b ! a)) b4"
      if "extends b b4" for b4
    proof -
      from extends_keeps [OF that Suc.prems(2,3)] extends_wf [OF that]
      show ?thesis using Suc.IH [of b4 "Suc i"] by simp
    qed
    have "for_of (Suc n) a i b = for_each (Suc n) (task # drop (Suc i) (arrays b ! a)) b"
    proof (cases "call_handleTask n (handleTask b1) task b1")
      case None
      then show ?thesis using True by (simp add: task_def b1_def Let_def del: toPromise.simps)
    next
      case (Some x)
      obtain r2 b2 where x: "x = (r2, b2)" by force
      have "extends b1 b2" using Some x e1 by (auto intro: frame_call_handleTask dest: extends_wf)
      with e1 have e2: "extends b b2" by (rule extends_trans)
      obtain r3 b3 where w: "private_thenWaitUntilProcessed b2 = (r3, b3)" by force
      have "extends b2 b3" using w e2 by (auto intro: extends_checkpoint dest: extends_wf)
      with e2 have e3: "extends b b3" by (rule extends_trans)
      show ?thesis
      proof (cases "toPromise n b3")
        case None
        then show ?thesis using True Some x w
          by (simp add: task_def [symmetric] b1_def [symmetric] Let_def del: toPromise.simps split: sum.split)
      next
        case p: (Some y)
        obtain r4 b4 where y: "y = (r4, b4)" by force
        have "extends b3 b4" using p y e3 by (auto intro: frame_toPromise dest: extends_wf simp del: toPromise.simps)
        with e3 have e4: "extends b b4" by (rule extends_trans)
        show ?thesis using True Some x w p y tail [OF e4]
          by (simp add: task_def [symmetric] b1_def [symmetric] Let_def del: toPromise.simps split: sum.split)
      qed
    qed
    with d show ?thesis by simp
  qed
qed

lemma toPromise_is_for_each:
  "well_formed b \<Longrightarrow> toPromise n b = for_each n (queue b) (with_new_queue b)"
  using for_of_is_for_each [of "with_new_queue b" "tasks b" n 0]
  by (simp add: with_new_queue_def well_formed_def queue_def nth_append)

subsection \<open>No run reads an abandoned array\<close>

lemma dead_extends: "dead a b \<Longrightarrow> extends b b' \<Longrightarrow> dead a b'"
  by (auto simp: dead_def dest: extends_keeps extends_wf)

lemma with_array_fields [simp]:
  "tasks (with_array a xs b) = tasks b" "errors (with_array a xs b) = errors b"
  "indent (with_array a xs b) = indent b" "breakpoint (with_array a xs b) = breakpoint b"
  "logger (with_array a xs b) = logger b" "handleTask (with_array a xs b) = handleTask b"
  "then_hook (with_array a xs b) = then_hook b" "asyncBus (with_array a xs b) = asyncBus b"
  "stdout (with_array a xs b) = stdout b" "cwd (with_array a xs b) = cwd b"
  "class_name (with_array a xs b) = class_name b" "ran (with_array a xs b) = ran b"
  "length (arrays (with_array a xs b)) = length (arrays b)"
  by (simp_all add: with_array_def)

lemma with_array_nth [simp]: "a' \<noteq> a \<Longrightarrow> arrays (with_array a xs b) ! a' = arrays b ! a'"
  by (simp add: with_array_def)

lemma with_array_log: "log_description t (with_array a xs b) = with_array a xs (log_description t b)"
  by (simp add: log_description_def with_array_def getLogger_def Let_def)

lemma with_array_checkpoint:
  "private_thenWaitUntilProcessed (with_array a xs b) = apsnd (with_array a xs) (private_thenWaitUntilProcessed b)"
  by (simp add: private_thenWaitUntilProcessed_def untilIdle_def Let_def with_array_def)

lemma with_array_addTask:
  "a \<noteq> tasks b \<Longrightarrow> addTask cb ig st (with_array a xs b) = apsnd (with_array a xs) (addTask cb ig st b)"
  by (simp add: addTask_def addPending_def with_array_def Let_def list_update_swap split: list.split)

lemma with_array_alloc:
  "a < length (arrays b) \<Longrightarrow>
   (with_array a xs b)\<lparr>arrays := arrays (with_array a xs b) @ [[]], tasks := length (arrays b)\<rparr>
   = with_array a xs (b\<lparr>arrays := arrays b @ [[]], tasks := length (arrays b)\<rparr>)"
  by (simp add: with_array_def list_update_append1)

lemma with_array_upd:
  "(with_array a xs b)\<lparr>handleTask := h\<rparr> = with_array a xs (b\<lparr>handleTask := h\<rparr>)"
  "(with_array a xs b)\<lparr>breakpoint := p\<rparr> = with_array a xs (b\<lparr>breakpoint := p\<rparr>)"
  "(with_array a xs b)\<lparr>ran := r\<rparr> = with_array a xs (b\<lparr>ran := r\<rparr>)"
  "(with_array a xs b)\<lparr>asyncBus := q\<rparr> = with_array a xs (b\<lparr>asyncBus := q\<rparr>)"
  "(with_array a xs b)\<lparr>logger := l\<rparr> = with_array a xs (b\<lparr>logger := l\<rparr>)"
  "(with_array a xs b)\<lparr>then_hook := k\<rparr> = with_array a xs (b\<lparr>then_hook := k\<rparr>)"
  by (simp_all add: with_array_def)

lemma blind_drain:
  assumes f: "\<And>a' i b'. a' \<noteq> a \<longrightarrow> blind a xs (for_of n a' i) b'"
  shows "blind a xs (toPromise n) b"
  unfolding blind_def
proof
  assume d: "dead a b"
  define b0 where "b0 = b\<lparr>arrays := arrays b @ [[]], tasks := length (arrays b)\<rparr>"
  have "extends b b0" using d unfolding b0_def dead_def by (auto intro: extends_alloc)
  with d have d0: "dead a b0" by (rule dead_extends)
  have "toPromise n (with_array a xs b) = for_of n (tasks b) 0 (with_array a xs b0)"
    using d by (simp add: with_array_alloc dead_def b0_def)
  also have "\<dots> = map_option (apsnd (with_array a xs)) (for_of n (tasks b) 0 b0)"
    using f [of "tasks b" 0 b0] d d0 by (simp add: blind_def dead_def)
  finally show "toPromise n (with_array a xs b) = map_option (apsnd (with_array a xs)) (toPromise n b)"
    by (simp add: b0_def)
qed

lemma blind_loop0: "a' \<noteq> a \<longrightarrow> blind a xs (for_of 0 a' i) b"
  by (simp add: blind_def)

lemma blind_loop:
  assumes h: "\<And>h t b'. blind a xs (call_handleTask n h t) b'"
    and t: "\<And>b'. blind a xs (toPromise n) b'"
    and f: "\<And>a' i' b'. a' \<noteq> a \<longrightarrow> blind a xs (for_of n a' i') b'"
  shows "a' \<noteq> a \<longrightarrow> blind a xs (for_of (Suc n) a' i) b"
  unfolding blind_def
proof (intro impI)
  assume ne: "a' \<noteq> a" and d: "dead a b"
  let ?w = "with_array a xs"
  show "for_of (Suc n) a' i (?w b) = map_option (apsnd ?w) (for_of (Suc n) a' i b)"
  proof (cases "i < length (arrays b ! a')")
    case False
    with ne show ?thesis by simp
  next
    case True
    define task where "task = arrays b ! a' ! i"
    define b1 where "b1 = log_description task b"
    have "extends b b1" using d by (simp add: b1_def extends_log dead_def)
    with d have d1: "dead a b1" by (rule dead_extends)
    have c: "call_handleTask n (handleTask b1) task (?w b1) = map_option (apsnd ?w) (call_handleTask n (handleTask b1) task b1)"
      using h [of "handleTask b1" task b1] d1 by (simp add: blind_def)
    show ?thesis
    proof (cases "call_handleTask n (handleTask b1) task b1")
      case None
      with c True ne show ?thesis
        by (simp add: with_array_log task_def [symmetric] b1_def [symmetric] Let_def del: toPromise.simps)
    next
      case (Some x)
      obtain r2 b2 where x: "x = (r2, b2)" by force
      have "extends b1 b2" using Some x d1 by (auto intro: frame_call_handleTask simp: dead_def)
      with d1 have d2: "dead a b2" by (rule dead_extends)
      obtain r3 b3 where w: "private_thenWaitUntilProcessed b2 = (r3, b3)" by force
      have "extends b2 b3" using w d2 by (auto intro: extends_checkpoint simp: dead_def)
      with d2 have d3: "dead a b3" by (rule dead_extends)
      have w': "private_thenWaitUntilProcessed (?w b2) = (r3, ?w b3)" using w by (simp add: with_array_checkpoint)
      have p: "toPromise n (?w b3) = map_option (apsnd ?w) (toPromise n b3)"
        using t [of b3] d3 by (simp add: blind_def)
      show ?thesis
      proof (cases "toPromise n b3")
        case None
        with p c Some x w w' True ne show ?thesis
          by (simp add: with_array_log task_def [symmetric] b1_def [symmetric] Let_def del: toPromise.simps split: sum.split)
      next
        case q: (Some y)
        obtain r4 b4 where y: "y = (r4, b4)" by force
        have "extends b3 b4" using q y d3 by (auto intro: frame_toPromise simp: dead_def simp del: toPromise.simps)
        with d3 have d4: "dead a b4" by (rule dead_extends)
        have l: "for_of n a' (Suc i) (?w b4) = map_option (apsnd ?w) (for_of n a' (Suc i) b4)"
          using f [of a' "Suc i" b4] d4 ne by (simp add: blind_def)
        from q y p c Some x w w' True ne l show ?thesis
          by (simp add: with_array_log task_def [symmetric] b1_def [symmetric] Let_def del: toPromise.simps split: sum.split)
      qed
    qed
  qed
qed

lemma blind_hook:
  assumes r: "\<And>as b'. blind a xs (run_callback n as) b'"
  shows "blind a xs (call_handleTask n Default t) b"
  unfolding blind_def
proof
  assume d: "dead a b"
  define b0 where "b0 = (if breakpoint b then b\<lparr>breakpoint := False\<rparr> else b)"
  define b1 where "b1 = b0\<lparr>ran := ran b0 @ [t]\<rparr>"
  have "extends b b1" using d by (intro extends_same) (auto simp: b1_def b0_def dead_def)
  with d have d1: "dead a b1" by (rule dead_extends)
  have "call_handleTask n Default t (with_array a xs b) = run_callback n (callback t) (with_array a xs b1)"
    by (simp add: b1_def b0_def Let_def with_array_upd)
  also have "\<dots> = map_option (apsnd (with_array a xs)) (run_callback n (callback t) b1)"
    using r [of "callback t" b1] d1 by (simp add: blind_def)
  finally show "call_handleTask n Default t (with_array a xs b)
      = map_option (apsnd (with_array a xs)) (call_handleTask n Default t b)"
    by (simp add: b1_def b0_def Let_def)
qed

lemma blind_trap:
  assumes h: "\<And>t' b'. blind a xs (call_handleTask n h t') b'"
    and t: "\<And>b'. blind a xs (toPromise n) b'"
  shows "blind a xs (call_handleTask n (Intercept h m) t) b"
  unfolding blind_def
proof
  assume d: "dead a b"
  let ?w = "with_array a xs"
  define b0 where "b0 = b\<lparr>handleTask := h\<rparr>"
  have "extends b b0" using d by (intro extends_same) (auto simp: b0_def dead_def)
  with d have d0: "dead a b0" by (rule dead_extends)
  have c: "call_handleTask n h t (?w b0) = map_option (apsnd ?w) (call_handleTask n h t b0)"
    using h [of t b0] d0 by (simp add: blind_def)
  show "call_handleTask n (Intercept h m) t (?w b) = map_option (apsnd ?w) (call_handleTask n (Intercept h m) t b)"
  proof (cases "call_handleTask n h t b0")
    case None
    with c show ?thesis by (simp add: with_array_upd b0_def [symmetric] del: toPromise.simps)
  next
    case (Some x)
    obtain r1 b1 where x: "x = (r1, b1)" by force
    have "extends b0 b1" using Some x d0 by (auto intro: frame_call_handleTask simp: dead_def)
    with d0 have d1: "dead a b1" by (rule dead_extends)
    have p: "toPromise n (?w b1) = map_option (apsnd ?w) (toPromise n b1)"
      using t [of b1] d1 by (simp add: blind_def)
    from c Some x p show ?thesis
      by (simp add: with_array_upd b0_def [symmetric] del: toPromise.simps split: sum.split option.split prod.split)
  qed
qed

lemma blind_nil: "blind a xs (run_callback n []) b"
  by (simp add: blind_def)

lemma blind_act:
  assumes r: "\<And>b'. blind a xs (run_callback n as) b'"
    and t: "\<And>b'. blind a xs (toPromise n) b'"
  shows "blind a xs (run_callback n (x # as)) b"
  unfolding blind_def
proof
  assume d: "dead a b"
  let ?w = "with_array a xs"
  have rest: "run_callback n as (?w b1) = map_option (apsnd ?w) (run_callback n as b1)"
    if "extends b b1" for b1
    using r [of b1] dead_extends [OF d that] by (simp add: blind_def)
  have same: "extends b b1" if "arrays b1 = arrays b" "tasks b1 = tasks b" "cwd b1 = cwd b" "class_name b1 = class_name b" for b1
    using d that by (intro extends_same) (auto simp: dead_def)
  show "run_callback n (x # as) (?w b) = map_option (apsnd ?w) (run_callback n (x # as) b)"
  proof (cases x)
    case (AddTask st cb)
    obtain r1 b1 where a: "addTask cb 1 st b = (r1, b1)" by force
    have e1: "extends b b1" using d a by (auto intro: extends_addTask simp: dead_def)
    have "addTask cb 1 st (?w b) = (r1, ?w b1)" using d a by (simp add: with_array_addTask dead_def)
    with AddTask a rest [OF e1] show ?thesis by (simp split: sum.split)
  next
    case AwaitThis
    show ?thesis
    proof (cases "then_hook b")
      case False
      with AwaitThis rest [of b] same [of b] show ?thesis by (simp del: toPromise.simps)
    next
      case True
      have p: "toPromise n (?w b) = map_option (apsnd ?w) (toPromise n b)"
        using t [of b] d by (simp add: blind_def)
      show ?thesis
      proof (cases "toPromise n b")
        case None
        with AwaitThis True p show ?thesis by (simp add: remove_then_def del: toPromise.simps)
      next
        case (Some y)
        obtain r1 b1 where y: "y = (r1, b1)" by force
        have e1: "extends b b1" using Some y d by (auto intro: frame_toPromise simp: dead_def simp del: toPromise.simps)
        have "extends b1 (b1\<lparr>then_hook := False\<rparr>)" using e1 by (intro extends_same) (auto dest: extends_wf)
        with e1 have e2: "extends b (b1\<lparr>then_hook := False\<rparr>)" by (rule extends_trans)
        from AwaitThis True p Some y rest [OF e2] show ?thesis
          by (simp add: remove_then_def with_array_upd del: toPromise.simps split: sum.split)
      qed
    qed
  next
    case WaitUntilProcessed
    obtain r1 b1 where w: "private_thenWaitUntilProcessed b = (r1, b1)" by force
    have e1: "extends b b1" using d w by (auto intro: extends_checkpoint simp: dead_def)
    from WaitUntilProcessed w rest [OF e1] show ?thesis
      by (simp add: with_array_checkpoint split: sum.split)
  next
    case (Throw e)
    then show ?thesis by simp
  next
    case (Publish p)
    with rest [OF same [of "b\<lparr>asyncBus := asyncBus b @ [p]\<rparr>"]] show ?thesis by (simp add: with_array_upd)
  next
    case (SwapHandleTask m)
    with rest [OF same [of "b\<lparr>handleTask := Intercept (handleTask b) m\<rparr>"]] show ?thesis by (simp add: with_array_upd)
  next
    case SetBreakpoint
    with rest [OF same [of "b\<lparr>breakpoint := True\<rparr>"]] show ?thesis by (simp add: with_array_upd)
  next
    case (SetLogger l)
    with rest [OF same [of "b\<lparr>logger := l\<rparr>"]] show ?thesis by (simp add: with_array_upd)
  qed
qed

lemma blind_all:
  "blind a xs (toPromise n) b \<and> (a' \<noteq> a \<longrightarrow> blind a xs (for_of n a' i) b) \<and>
   blind a xs (call_handleTask n h t) b \<and> blind a xs (run_callback n as) b"
  by (rule drain_induct [where Pt = "\<lambda>n b. blind a xs (toPromise n) b"
      and Pf = "\<lambda>n a' i b. a' \<noteq> a \<longrightarrow> blind a xs (for_of n a' i) b"
      and Ph = "\<lambda>n h t b. blind a xs (call_handleTask n h t) b"
      and Pr = "\<lambda>n as b. blind a xs (run_callback n as) b"])
    (fact blind_drain blind_loop0 blind_loop blind_hook blind_trap blind_nil blind_act)+

subsection \<open>The snapshot of a drain pass\<close>

lemmas blind_toPromise = blind_all [THEN conjunct1, unfolded blind_def, rule_format]
lemmas blind_call_handleTask = blind_all [THEN conjunct2, THEN conjunct2, THEN conjunct1, unfolded blind_def, rule_format]

lemma dead_snapshot: "well_formed b \<Longrightarrow> dead (tasks b) (with_new_queue b)"
  by (simp add: dead_def well_formed_def with_new_queue_def)

lemma toPromise_frame:
  assumes wf: "well_formed b" and run: "toPromise n b = Some (r, b')"
  shows "extends (with_new_queue b) b'"
proof -
  have "for_of n (tasks b) 0 (with_new_queue b) = Some (r, b')"
    using run by (simp add: with_new_queue_def)
  moreover have "well_formed (with_new_queue b)" using dead_snapshot [OF wf] by (simp add: dead_def)
  ultimately show ?thesis by (rule frame_for_of [rotated])
qed

lemma extends_take:
  assumes e: "extends (with_new_queue b) b'"
  shows "take (length (arrays b)) (arrays b') = arrays b"
proof (rule nth_equalityI)
  show "length (take (length (arrays b)) (arrays b')) = length (arrays b)"
    using e by (simp add: extends_def with_new_queue_def)
next
  fix i assume "i < length (take (length (arrays b)) (arrays b'))"
  then have i: "i < length (arrays b)" by simp
  then have "arrays b' ! i = arrays (with_new_queue b) ! i"
    using e by (simp add: extends_def with_new_queue_def)
  with i show "take (length (arrays b)) (arrays b') ! i = arrays b ! i"
    by (simp add: with_new_queue_def nth_append)
qed

text \<open>
  C2. A drain pass is the loop over a private copy of the queue, taken when the pass
  begins, in a bench whose queue is a new, empty array. A registration pushes to the
  array that is the queue at that moment and to no other. So when the pass ends, every
  array that existed when it began, the snapshot among them, holds what it held then,
  and the queue is an array allocated since.
\<close>

theorem drain_pass_runs_on_a_private_snapshot:
  "well_formed b \<Longrightarrow>
     toPromise n b = for_each n (queue b) (with_new_queue b) \<and>
     queue (with_new_queue b) = [] \<and>
     tasks (addPending t b) = tasks b \<and>
     arrays (addPending t b) = (arrays b)[tasks b := queue b @ [t]] \<and>
     (\<forall>r b'. toPromise n b = Some (r, b') \<longrightarrow>
        take (length (arrays b)) (arrays b') = arrays b \<and>
        length (arrays b) \<le> tasks b' \<and> tasks b' < length (arrays b'))"
proof (intro conjI allI impI)
  assume wf: "well_formed b"
  show "toPromise n b = for_each n (queue b) (with_new_queue b)"
    using wf by (rule toPromise_is_for_each)
  show "queue (with_new_queue b) = []" by (simp add: queue_def with_new_queue_def)
  show "tasks (addPending t b) = tasks b" by (simp add: addPending_def)
  show "arrays (addPending t b) = (arrays b)[tasks b := queue b @ [t]]"
    by (simp add: addPending_def queue_def)
  fix r b'
  assume run: "toPromise n b = Some (r, b')"
  have e: "extends (with_new_queue b) b'" using wf run by (rule toPromise_frame)
  show "take (length (arrays b)) (arrays b') = arrays b" using e by (rule extends_take)
  show "length (arrays b) \<le> tasks b'" using e by (auto simp: extends_def with_new_queue_def)
  show "tasks b' < length (arrays b')" using e by (simp add: extends_def)
qed

lemma depth_first_chain_runs: "toPromise 3 depth_first_chain \<noteq> None"
  by code_simp

theorem drain_pass_runs_on_a_private_snapshot_witness:
  "well_formed depth_first_chain \<and> length (queue depth_first_chain) = 2 \<and>
   (\<exists>r b'. toPromise 3 depth_first_chain = Some (r, b') \<and>
       toPromise 3 depth_first_chain = for_each 3 (queue depth_first_chain) (with_new_queue depth_first_chain) \<and>
       take (length (arrays depth_first_chain)) (arrays b') = arrays depth_first_chain \<and>
       length (arrays depth_first_chain) \<le> tasks b' \<and> tasks b' < length (arrays b'))"
proof -
  have wf: "well_formed depth_first_chain" by code_simp
  have len: "length (queue depth_first_chain) = 2" by code_simp
  obtain r b' where run: "toPromise 3 depth_first_chain = Some (r, b')"
    using depth_first_chain_runs by (cases "toPromise 3 depth_first_chain") auto
  from drain_pass_runs_on_a_private_snapshot [OF wf, of 3] run wf len show ?thesis by blast
qed

subsection \<open>A failed drain pass\<close>

lemma for_each_failure_prefix:
  "for_each n ts b = Some (Inl e, b') \<Longrightarrow> for_each n (ts @ xs) b = Some (Inl e, b')"
proof (induction ts arbitrary: n b)
  case Nil
  then show ?case by simp
next
  case (Cons task rest)
  show ?case
  proof (cases n)
    case 0
    with Cons.prems show ?thesis by simp
  next
    case (Suc m)
    define b1 where "b1 = log_description task b"
    show ?thesis
    proof (cases "call_handleTask m (handleTask b1) task b1")
      case None
      with Cons.prems Suc show ?thesis by (simp add: b1_def Let_def del: toPromise.simps)
    next
      case (Some x)
      obtain r2 b2 where x: "x = (r2, b2)" by force
      obtain r3 b3 where w: "private_thenWaitUntilProcessed b2 = (r3, b3)" by force
      show ?thesis
      proof (cases "toPromise m b3")
        case None
        with Cons.prems Suc Some x w show ?thesis
          by (cases r2; cases r3) (simp_all add: b1_def [symmetric] Let_def del: toPromise.simps)
      next
        case p: (Some y)
        obtain r4 b4 where y: "y = (r4, b4)" by force
        have l: "for_each m rest b4 = Some (Inl e, b') \<Longrightarrow> for_each m (rest @ xs) b4 = Some (Inl e, b')"
          by (rule Cons.IH)
        from Cons.prems Suc Some x w p y l show ?thesis
          by (cases r2; cases r3; cases r4) (simp_all add: b1_def [symmetric] Let_def del: toPromise.simps)
      qed
    qed
  qed
qed

lemma blind_for_each:
  "dead a b \<Longrightarrow>
   for_each n ts (with_array a xs b) = map_option (apsnd (with_array a xs)) (for_each n ts b)"
proof (induction ts arbitrary: n b)
  case Nil
  then show ?case by simp
next
  case (Cons task rest)
  let ?w = "with_array a xs"
  show ?case
  proof (cases n)
    case 0
    then show ?thesis by simp
  next
    case (Suc m)
    define b1 where "b1 = log_description task b"
    have "extends b b1" using Cons.prems by (simp add: b1_def extends_log dead_def)
    with Cons.prems have d1: "dead a b1" by (rule dead_extends)
    have c: "call_handleTask m (handleTask b1) task (?w b1) = map_option (apsnd ?w) (call_handleTask m (handleTask b1) task b1)"
      using d1 by (rule blind_call_handleTask)
    show ?thesis
    proof (cases "call_handleTask m (handleTask b1) task b1")
      case None
      with c Suc show ?thesis
        by (simp add: with_array_log b1_def [symmetric] Let_def del: toPromise.simps)
    next
      case (Some x)
      obtain r2 b2 where x: "x = (r2, b2)" by force
      have "extends b1 b2" using Some x d1 by (auto intro: frame_call_handleTask simp: dead_def)
      with d1 have d2: "dead a b2" by (rule dead_extends)
      obtain r3 b3 where w: "private_thenWaitUntilProcessed b2 = (r3, b3)" by force
      have "extends b2 b3" using w d2 by (auto intro: extends_checkpoint simp: dead_def)
      with d2 have d3: "dead a b3" by (rule dead_extends)
      have w': "private_thenWaitUntilProcessed (?w b2) = (r3, ?w b3)" using w by (simp add: with_array_checkpoint)
      have p: "toPromise m (?w b3) = map_option (apsnd ?w) (toPromise m b3)"
        using d3 by (rule blind_toPromise)
      show ?thesis
      proof (cases "toPromise m b3")
        case None
        with p c Some x w w' Suc show ?thesis
          by (simp add: with_array_log b1_def [symmetric] Let_def del: toPromise.simps split: sum.split)
      next
        case q: (Some y)
        obtain r4 b4 where y: "y = (r4, b4)" by force
        have "extends b3 b4" using q y d3 by (auto intro: frame_toPromise simp: dead_def simp del: toPromise.simps)
        with d3 have d4: "dead a b4" by (rule dead_extends)
        have l: "for_each m rest (?w b4) = map_option (apsnd ?w) (for_each m rest b4)"
          using d4 by (rule Cons.IH)
        from q y p c Some x w w' Suc l show ?thesis
          by (simp add: with_array_log b1_def [symmetric] Let_def del: toPromise.simps split: sum.split)
      qed
    qed
  qed
qed

lemma remove_then_with_array:
  "remove_then (map_option (apsnd (with_array a xs)) x) = map_option (apsnd (with_array a xs)) (remove_then x)"
  by (simp add: remove_then_def with_array_upd split: option.split sum.split prod.split)

lemma blind_await_bench:
  "dead a b \<Longrightarrow> await_bench m (with_array a xs b) = map_option (apsnd (with_array a xs)) (await_bench m b)"
  by (simp add: await_bench_def thenPromise_def blind_toPromise remove_then_with_array del: toPromise.simps)

lemma with_new_queue_with_array:
  "a < length (arrays b) \<Longrightarrow> with_new_queue (with_array a xs b) = with_array a xs (with_new_queue b)"
  by (simp add: with_new_queue_def with_array_def list_update_append1)

text \<open>
  C10. When a drain pass fails (is rejected), the queue is an array allocated during the
  pass, not the snapshot, and the snapshot array holds what it held: its remaining tasks were not put
  back. Tasks behind the failing one change nothing: with any tasks \<open>xs\<close> appended to
  the snapshot the pass fails with the same error and leaves the same bench, but for the
  abandoned array. And every later drain or await is blind to that array: whatever it
  holds, no task of it runs.
\<close>

theorem abandoned_snapshot_never_runs:
  assumes wf: "well_formed b" and fail: "toPromise n b = Some (Inl e, b1)"
  shows "tasks b1 \<noteq> tasks b \<and> arrays b1 ! tasks b = queue b \<and>
         toPromise n (with_array (tasks b) (queue b @ xs) b)
           = Some (Inl e, with_array (tasks b) (queue b @ xs) b1) \<and>
         toPromise m (with_array (tasks b) ys b1)
           = map_option (apsnd (with_array (tasks b) ys)) (toPromise m b1) \<and>
         await_bench m (with_array (tasks b) ys b1)
           = map_option (apsnd (with_array (tasks b) ys)) (await_bench m b1)"
proof -
  let ?a = "tasks b"
  have d0: "dead ?a (with_new_queue b)" using wf by (rule dead_snapshot)
  have e: "extends (with_new_queue b) b1" using wf fail by (rule toPromise_frame)
  from d0 e have d1: "dead ?a b1" by (rule dead_extends)
  have k: "arrays b1 ! ?a = queue b"
    using extends_keeps [OF e] d0 wf
    by (simp add: dead_def queue_def with_new_queue_def nth_append well_formed_def)
  have each: "for_each n (queue b) (with_new_queue b) = Some (Inl e, b1)"
    using toPromise_is_for_each [OF wf, of n] fail by simp
  let ?w = "with_array ?a (queue b @ xs)"
  have wf': "well_formed (?w b)" using wf by (simp add: well_formed_def)
  have q': "queue (?w b) = queue b @ xs" using wf by (simp add: queue_def with_array_def well_formed_def)
  have "toPromise n (?w b) = for_each n (queue b @ xs) (?w (with_new_queue b))"
    using toPromise_is_for_each [OF wf', of n] q' wf
    by (simp add: with_new_queue_with_array well_formed_def)
  moreover have "for_each n (queue b) (?w (with_new_queue b)) = Some (Inl e, ?w b1)"
    using blind_for_each [OF d0, of n "queue b" "queue b @ xs"] each by simp
  ultimately have "toPromise n (?w b) = Some (Inl e, ?w b1)"
    by (simp add: for_each_failure_prefix del: toPromise.simps)
  moreover have "tasks b1 \<noteq> ?a" using d1 by (simp add: dead_def)
  moreover note k blind_toPromise [OF d1, of m ys] blind_await_bench [OF d1, of m ys]
  ultimately show ?thesis by (simp del: toPromise.simps)
qed

theorem abandoned_snapshot_never_runs_witness:
  "well_formed aborted_chain \<and> length (queue aborted_chain) = 2 \<and>
   (\<exists>b1. toPromise 1 aborted_chain = Some (Inl (Error ''boom''), b1) \<and>
      tasks b1 \<noteq> tasks aborted_chain \<and>
      arrays b1 ! tasks aborted_chain = queue aborted_chain \<and>
      toPromise 1 (with_array (tasks aborted_chain) (queue aborted_chain @ queue aborted_chain) aborted_chain)
        = Some (Inl (Error ''boom''),
            with_array (tasks aborted_chain) (queue aborted_chain @ queue aborted_chain) b1) \<and>
      toPromise 2 (with_array (tasks aborted_chain) [] b1)
        = map_option (apsnd (with_array (tasks aborted_chain) [])) (toPromise 2 b1) \<and>
      await_bench 2 (with_array (tasks aborted_chain) [] b1)
        = map_option (apsnd (with_array (tasks aborted_chain) [])) (await_bench 2 b1))"
proof -
  have wf: "well_formed aborted_chain" by code_simp
  have len: "length (queue aborted_chain) = 2" by code_simp
  have "toPromise 1 aborted_chain \<noteq> None" by code_simp
  moreover have "fst (the (toPromise 1 aborted_chain)) = Inl (Error ''boom'')" by code_simp
  ultimately obtain b1 where run: "toPromise 1 aborted_chain = Some (Inl (Error ''boom''), b1)"
    by (cases "toPromise 1 aborted_chain") auto
  from abandoned_snapshot_never_runs [OF wf run, of "queue aborted_chain" 2 "[]"] run wf len
  show ?thesis by blast
qed

text \<open>
  The failure of a task need not make the pass fail. After \<^verbatim>\<open>throws('boom')\<close> the
  action of the step at line 20 throws \<^verbatim>\<open>Error('boom')\<close>; the hook of
  \<^verbatim>\<open>throws\<close> catches it, the pass goes on, and the step at line 30, which was in the
  snapshot behind it, runs.
\<close>

theorem trapped_action_error_keeps_the_snapshot:
  "map registration_line (queue trapped_step_chain) = [Some 10, Some 20, Some 30] \<and>
   fst (the (run_callback 0 (callback (queue trapped_step_chain ! 1)) new_bench))
     = Inl (Error ''boom'') \<and>
   fst (the (toPromise 3 trapped_step_chain)) = Inr () \<and>
   map registration_line (ran (snd (the (toPromise 3 trapped_step_chain))))
     = [Some 10, Some 370, Some 20, Some 30]"
  by code_simp


subsection \<open>The drain loop returns\<close>

lemma drain_induct_each:
  fixes Pt :: "nat \<Rightarrow> bench \<Rightarrow> bool"
    and Pe :: "nat \<Rightarrow> TestTask list \<Rightarrow> bench \<Rightarrow> bool"
    and Ph :: "nat \<Rightarrow> handler \<Rightarrow> TestTask \<Rightarrow> bench \<Rightarrow> bool"
    and Pr :: "nat \<Rightarrow> action list \<Rightarrow> bench \<Rightarrow> bool"
  assumes drain: "\<And>n b. (\<And>ts b'. Pe n ts b') \<Longrightarrow> Pt n b"
    and loop_nil: "\<And>n b. Pe n [] b"
    and loop0: "\<And>t ts b. Pe 0 (t # ts) b"
    and loop: "\<And>n t ts b. (\<And>h t' b'. Ph n h t' b') \<Longrightarrow> (\<And>b'. Pt n b') \<Longrightarrow>
                 (\<And>b'. Pe n ts b') \<Longrightarrow> Pe (Suc n) (t # ts) b"
    and hook: "\<And>n t b. (\<And>as b'. Pr n as b') \<Longrightarrow> Ph n Default t b"
    and trap: "\<And>n h m t b. (\<And>t' b'. Ph n h t' b') \<Longrightarrow> (\<And>b'. Pt n b') \<Longrightarrow>
                 Ph n (Intercept h m) t b"
    and nil: "\<And>n b. Pr n [] b"
    and act: "\<And>n x as b. (\<And>b'. Pr n as b') \<Longrightarrow> (\<And>b'. Pt n b') \<Longrightarrow> Pr n (x # as) b"
  shows "Pt n b \<and> Pe n ts b \<and> Ph n h t b \<and> Pr n as b"
proof -
  have rest: "(\<forall>b. Pt n b) \<and> (\<forall>h t b. Ph n h t b) \<and> (\<forall>as b. Pr n as b)"
    if e: "\<And>ts b. Pe n ts b" for n
  proof -
    have t: "\<And>b. Pt n b" by (rule drain) (rule e)
    have r: "Pr n as b" for as b
      by (induction as arbitrary: b) (auto intro: nil act t)
    have h: "Ph n h t b" for h t b
      by (induction h arbitrary: t b) (auto intro: hook trap r t)
    from t r h show ?thesis by blast
  qed
  have "\<forall>ts b. Pe n ts b"
  proof (induction n)
    case 0
    show ?case
    proof (intro allI)
      fix ts b show "Pe 0 ts b" by (cases ts) (auto intro: loop_nil loop0)
    qed
  next
    case (Suc n)
    then have e: "\<And>ts b. Pe n ts b" by blast
    from rest [OF e] have t: "\<And>b. Pt n b" and h: "\<And>h t b. Ph n h t b" by blast+
    show ?case
    proof (intro allI)
      fix ts b show "Pe (Suc n) ts b"
        by (cases ts) (auto intro: loop_nil loop [OF h t e])
    qed
  qed
  then have e: "\<And>ts b. Pe n ts b" by blast
  from rest [OF e] e show ?thesis by blast
qed

lemma count_tasks_simps [simp]:
  "count_tasks [] = 0" "count_tasks (t # ts) = count_task t + count_tasks ts"
  "count_tasks (ts @ us) = count_tasks ts + count_tasks us"
  by (simp_all add: count_tasks_def)

lemma count_tasks_0: "count_tasks ts = 0 \<Longrightarrow> ts = []"
  by (cases ts) (simp_all add: count_task_def)

lemma returnsE:
  assumes "returns k l b x"
  obtains r b' where "x = Some (r, b')"
    and "count_tasks (queue b') \<le> (case r of Inr u \<Rightarrow> k | Inl e \<Rightarrow> l) + count_tasks (queue b)"
  using assms unfolding returns_def by blast

lemma queue_same: "arrays b' = arrays b \<Longrightarrow> tasks b' = tasks b \<Longrightarrow> queue b' = queue b"
  by (simp add: queue_def)

lemma queue_log [simp]: "queue (log_description t b) = queue b"
  by (simp add: queue_def log_description_def)

lemma queue_checkpoint: "private_thenWaitUntilProcessed b = (r, b') \<Longrightarrow> queue b' = queue b"
  by (auto dest: checkpoint_store simp: queue_def)

lemma wf_checkpoint: "private_thenWaitUntilProcessed b = (r, b') \<Longrightarrow> well_formed b \<Longrightarrow> well_formed b'"
  by (auto dest: checkpoint_store simp: well_formed_def)

lemma wf_log [simp]: "well_formed (log_description t b) = well_formed b"
  by (simp add: well_formed_def log_description_def)

lemma wf_toPromise: "well_formed b \<Longrightarrow> toPromise n b = Some (r, b') \<Longrightarrow> well_formed b'"
  by (rule extends_wf) (rule frame_toPromise)

lemma wf_call_handleTask: "well_formed b \<Longrightarrow> call_handleTask n h t b = Some (r, b') \<Longrightarrow> well_formed b'"
  by (rule extends_wf) (rule frame_call_handleTask)

lemma wf_run_callback: "well_formed b \<Longrightarrow> run_callback n as b = Some (r, b') \<Longrightarrow> well_formed b'"
  by (rule extends_wf) (rule frame_run_callback)

lemma wf_new_queue: "well_formed b \<Longrightarrow> well_formed (with_new_queue b)"
  by (simp add: well_formed_def with_new_queue_def)

lemma queue_new_queue [simp]: "queue (with_new_queue b) = []"
  by (simp add: queue_def with_new_queue_def)

lemma returns_drain:
  assumes e: "\<And>ts b'. loop_returns n ts b'"
  shows "drain_returns n b"
  unfolding drain_returns_def
proof
  assume a: "well_formed b \<and> count_tasks (queue b) \<le> n"
  then have wf: "well_formed b" by simp
  have "returns 0 (count_tasks (queue b)) (with_new_queue b) (for_each n (queue b) (with_new_queue b))"
    using e [of "queue b" "with_new_queue b"] a by (simp add: loop_returns_def wf_new_queue)
  then obtain r b' where x: "for_each n (queue b) (with_new_queue b) = Some (r, b')"
    and c: "count_tasks (queue b') \<le> (case r of Inr u \<Rightarrow> 0 | Inl e \<Rightarrow> count_tasks (queue b)) + 0"
    by (auto elim: returnsE)
  have "toPromise n b = Some (r, b')" using x toPromise_is_for_each [OF wf, of n] by simp
  moreover have "case r of Inr u \<Rightarrow> queue b' = [] | Inl e \<Rightarrow> count_tasks (queue b') \<le> count_tasks (queue b)"
    using c by (cases r) (auto dest: count_tasks_0)
  ultimately show "\<exists>r b'. toPromise n b = Some (r, b') \<and>
         (case r of Inr u \<Rightarrow> queue b' = [] | Inl e \<Rightarrow> count_tasks (queue b') \<le> count_tasks (queue b))"
    by blast
qed

lemma returns_loop_nil: "loop_returns n [] b"
  by (simp add: loop_returns_def returns_def)

lemma returns_loop0: "loop_returns 0 (t # ts) b"
  by (simp add: loop_returns_def count_task_def)

lemma returns_loop:
  assumes h: "\<And>h t' b'. hook_returns n h t' b'"
    and d: "\<And>b'. drain_returns n b'"
    and e: "\<And>b'. loop_returns n ts b'"
  shows "loop_returns (Suc n) (t # ts) b"
  unfolding loop_returns_def
proof
  assume a: "well_formed b \<and> count_tasks (t # ts) + count_tasks (queue b) \<le> Suc n"
  then have wf: "well_formed b"
    and fuel: "count_actions (callback t) + count_tasks ts + count_tasks (queue b) \<le> n"
    by (simp_all add: count_task_def)
  define b1 where "b1 = log_description t b"
  have wf1: "well_formed b1" and q1: "queue b1 = queue b" using wf by (simp_all add: b1_def)
  have "returns (count_actions (callback t)) (count_actions (callback t)) b1
          (call_handleTask n (handleTask b1) t b1)"
    using h [of "handleTask b1" t b1] wf1 q1 fuel by (simp add: hook_returns_def)
  then obtain r2 b2 where c: "call_handleTask n (handleTask b1) t b1 = Some (r2, b2)"
    and k2: "count_tasks (queue b2) \<le> count_actions (callback t) + count_tasks (queue b)"
    using q1 by (auto elim!: returnsE split: sum.splits)
  have wf2: "well_formed b2" using wf1 c by (rule wf_call_handleTask)
  obtain r3 b3 where w: "private_thenWaitUntilProcessed b2 = (r3, b3)" by force
  have wf3: "well_formed b3" and q3: "queue b3 = queue b2"
    using w wf2 by (auto dest: wf_checkpoint queue_checkpoint)
  have "\<exists>r4 b4. toPromise n b3 = Some (r4, b4) \<and>
         (case r4 of Inr u \<Rightarrow> queue b4 = [] | Inl e \<Rightarrow> count_tasks (queue b4) \<le> count_tasks (queue b3))"
    using d [of b3] wf3 q3 k2 fuel by (simp add: drain_returns_def del: toPromise.simps)
  then obtain r4 b4 where p: "toPromise n b3 = Some (r4, b4)"
    and k4: "case r4 of Inr u \<Rightarrow> queue b4 = [] | Inl e \<Rightarrow> count_tasks (queue b4) \<le> count_tasks (queue b3)"
    by blast
  have wf4: "well_formed b4" using wf3 p by (rule wf_toPromise)
  show "returns 0 (count_tasks (t # ts)) b (for_each (Suc n) (t # ts) b)"
  proof (cases r2)
    case (Inl e2)
    with c k2 show ?thesis
      by (simp add: returns_def b1_def [symmetric] Let_def count_task_def del: toPromise.simps)
  next
    case r2: (Inr u2)
    show ?thesis
    proof (cases r3)
      case (Inl e3)
      with c r2 w k2 q3 show ?thesis
        by (simp add: returns_def b1_def [symmetric] Let_def count_task_def del: toPromise.simps)
    next
      case r3: (Inr u3)
      show ?thesis
      proof (cases r4)
        case (Inl e4)
        with c r2 w r3 p k4 k2 q3 show ?thesis
          by (simp add: returns_def b1_def [symmetric] Let_def count_task_def del: toPromise.simps)
      next
        case r4: (Inr u4)
        with k4 have q4: "queue b4 = []" by simp
        have "returns 0 (count_tasks ts) b4 (for_each n ts b4)"
          using e [of b4] wf4 q4 fuel by (simp add: loop_returns_def)
        then obtain r b' where l: "for_each n ts b4 = Some (r, b')"
          and k: "count_tasks (queue b') \<le> (case r of Inr u \<Rightarrow> 0 | Inl e \<Rightarrow> count_tasks ts)"
          using q4 by (auto elim!: returnsE)
        have "for_each (Suc n) (t # ts) b = Some (r, b')"
          using c r2 w r3 p r4 l by (simp add: b1_def [symmetric] Let_def del: toPromise.simps)
        with k show ?thesis by (cases r) (simp_all add: returns_def)
      qed
    qed
  qed
qed

lemma returns_hook:
  assumes r: "\<And>as b'. callback_returns n as b'"
  shows "hook_returns n Default t b"
  unfolding hook_returns_def
proof
  assume a: "well_formed b \<and> count_actions (callback t) + count_tasks (queue b) \<le> n"
  define b0 where "b0 = (if breakpoint b then b\<lparr>breakpoint := False\<rparr> else b)"
  define b1 where "b1 = b0\<lparr>ran := ran b0 @ [t]\<rparr>"
  have "well_formed b1" "queue b1 = queue b"
    using a by (auto simp: b1_def b0_def well_formed_def queue_def)
  with a r [of "callback t" b1]
  have "returns (count_actions (callback t)) (count_actions (callback t)) b1 (run_callback n (callback t) b1)"
    by (simp add: callback_returns_def)
  then show "returns (count_actions (callback t)) (count_actions (callback t)) b (call_handleTask n Default t b)"
    using \<open>queue b1 = queue b\<close> by (simp add: returns_def b1_def b0_def Let_def)
qed

lemma returns_trap:
  assumes h: "\<And>t' b'. hook_returns n h t' b'"
    and d: "\<And>b'. drain_returns n b'"
  shows "hook_returns n (Intercept h m) t b"
  unfolding hook_returns_def
proof
  assume a: "well_formed b \<and> count_actions (callback t) + count_tasks (queue b) \<le> n"
  define k where "k = count_actions (callback t)"
  define b0 where "b0 = b\<lparr>handleTask := h\<rparr>"
  have wf0: "well_formed b0" and q0: "queue b0 = queue b"
    using a by (auto simp: b0_def well_formed_def queue_def)
  have "returns k k b0 (call_handleTask n h t b0)"
    using h [of t b0] a wf0 q0 by (simp add: hook_returns_def k_def)
  then obtain r1 b1 where c: "call_handleTask n h t b0 = Some (r1, b1)"
    and k1: "count_tasks (queue b1) \<le> k + count_tasks (queue b)"
    using q0 by (auto elim!: returnsE split: sum.splits)
  have wf1: "well_formed b1" using wf0 c by (rule wf_call_handleTask)
  have "\<exists>r2 b2. toPromise n b1 = Some (r2, b2) \<and>
         (case r2 of Inr u \<Rightarrow> queue b2 = [] | Inl e \<Rightarrow> count_tasks (queue b2) \<le> count_tasks (queue b1))"
    using d [of b1] wf1 k1 a by (simp add: drain_returns_def k_def del: toPromise.simps)
  then obtain r2 b2 where p: "toPromise n b1 = Some (r2, b2)"
    and k2: "case r2 of Inr u \<Rightarrow> queue b2 = [] | Inl e \<Rightarrow> count_tasks (queue b2) \<le> count_tasks (queue b1)"
    by blast
  have k2': "count_tasks (queue b2) \<le> k + count_tasks (queue b)"
    using k2 k1 by (cases r2) auto
  show "returns (count_actions (callback t)) (count_actions (callback t)) b
          (call_handleTask n (Intercept h m) t b)"
  proof (cases r1)
    case (Inl e)
    with c k1 show ?thesis
      by (simp add: returns_def b0_def [symmetric] k_def [symmetric] del: toPromise.simps split: sum.split)
  next
    case (Inr u)
    with c p k2' show ?thesis
      by (cases r2) (simp_all add: returns_def b0_def [symmetric] k_def [symmetric] del: toPromise.simps split: sum.split)
  qed
qed

lemma returns_nil: "callback_returns n [] b"
  by (simp add: callback_returns_def returns_def)

lemma addTask_result:
  assumes "well_formed b" and "addTask cb ig st b = (r, b')"
  shows "(case r of Inl e \<Rightarrow> b' = b
          | Inr u \<Rightarrow> \<exists>t. callback t = cb \<and> stack t = st \<and> queue b' = queue b @ [t] \<and>
                     ran b' = ran b \<and> handleTask b' = handleTask b \<and> stdout b' = stdout b)"
  using assms
  by (auto simp add: addTask_def Let_def addPending_def queue_def well_formed_def split: list.splits)

lemma returns_act:
  assumes r: "\<And>b'. callback_returns n as b'"
    and d: "\<And>b'. drain_returns n b'"
  shows "callback_returns n (x # as) b"
  unfolding callback_returns_def
proof
  assume a: "well_formed b \<and> count_actions (x # as) + count_tasks (queue b) \<le> n"
  then have wf: "well_formed b" by simp
  let ?k = "count_actions (x # as)"
  have rest: "returns ?k ?k b (run_callback n as b1)"
    if "well_formed b1" and "count_actions as + count_tasks (queue b1) \<le> ?k + count_tasks (queue b)" for b1
  proof -
    have "returns (count_actions as) (count_actions as) b1 (run_callback n as b1)"
      using r [of b1] that a by (simp add: callback_returns_def)
    then show ?thesis using that(2) by (auto simp: returns_def split: sum.splits)
  qed
  have same: "returns ?k ?k b (run_callback n as b1)"
    if "arrays b1 = arrays b" "tasks b1 = tasks b" "count_actions as \<le> ?k" for b1
    using that wf by (intro rest) (auto simp: well_formed_def queue_def)
  show "returns ?k ?k b (run_callback n (x # as) b)"
  proof (cases x)
    case (AddTask st cb)
    obtain r1 b1 where t: "addTask cb 1 st b = (r1, b1)" by force
    show ?thesis
    proof (cases r1)
      case (Inl e)
      with addTask_result [OF wf t] have "b1 = b" by simp
      with AddTask t Inl show ?thesis by (simp add: returns_def)
    next
      case (Inr u)
      with addTask_result [OF wf t] obtain task where
        "callback task = cb" "queue b1 = queue b @ [task]" by auto
      moreover have "well_formed b1" using wf t by (auto dest: extends_addTask extends_wf)
      ultimately have "returns ?k ?k b (run_callback n as b1)"
        using AddTask by (intro rest) (simp_all add: count_task_def)
      with AddTask t Inr show ?thesis by simp
    qed
  next
    case AwaitThis
    show ?thesis
    proof (cases "then_hook b")
      case False
      with AwaitThis same [of b] show ?thesis by (simp del: toPromise.simps)
    next
      case True
      have "\<exists>r1 b1. toPromise n b = Some (r1, b1) \<and>
         (case r1 of Inr u \<Rightarrow> queue b1 = [] | Inl e \<Rightarrow> count_tasks (queue b1) \<le> count_tasks (queue b))"
        using d [of b] a by (simp add: drain_returns_def del: toPromise.simps)
      then obtain r1 b1 where p: "toPromise n b = Some (r1, b1)"
        and k1: "case r1 of Inr u \<Rightarrow> queue b1 = [] | Inl e \<Rightarrow> count_tasks (queue b1) \<le> count_tasks (queue b)"
        by blast
      have wf1: "well_formed b1" using wf p by (rule wf_toPromise)
      show ?thesis
      proof (cases r1)
        case (Inl e)
        with AwaitThis True p k1 show ?thesis
          by (simp add: returns_def remove_then_def del: toPromise.simps)
      next
        case (Inr u)
        have "returns ?k ?k b (run_callback n as (b1\<lparr>then_hook := False\<rparr>))"
          using wf1 k1 Inr AwaitThis by (intro rest) (simp_all add: well_formed_def queue_def)
        with AwaitThis True p Inr show ?thesis
          by (simp add: remove_then_def del: toPromise.simps)
      qed
    qed
  next
    case WaitUntilProcessed
    obtain r1 b1 where w: "private_thenWaitUntilProcessed b = (r1, b1)" by force
    show ?thesis
    proof (cases r1)
      case (Inl e)
      with WaitUntilProcessed w queue_checkpoint [OF w] show ?thesis by (simp add: returns_def)
    next
      case (Inr u)
      have "returns ?k ?k b (run_callback n as b1)"
        using w wf WaitUntilProcessed
        by (intro rest) (auto dest: wf_checkpoint queue_checkpoint)
      with WaitUntilProcessed w Inr show ?thesis by simp
    qed
  next
    case (Throw e)
    then show ?thesis by (simp add: returns_def)
  next
    case (Publish p)
    with same [of "b\<lparr>asyncBus := asyncBus b @ [p]\<rparr>"] show ?thesis by simp
  next
    case (SwapHandleTask m)
    with same [of "b\<lparr>handleTask := Intercept (handleTask b) m\<rparr>"] show ?thesis by simp
  next
    case SetBreakpoint
    with same [of "b\<lparr>breakpoint := True\<rparr>"] show ?thesis by simp
  next
    case (SetLogger l)
    with same [of "b\<lparr>logger := l\<rparr>"] show ?thesis by simp
  qed
qed

lemma returns_all:
  "drain_returns n b \<and> loop_returns n ts b \<and> hook_returns n h t b \<and> callback_returns n as b"
  by (rule drain_induct_each [where Pt = drain_returns and Pe = loop_returns
        and Ph = hook_returns and Pr = callback_returns])
    (fact returns_drain returns_loop_nil returns_loop0 returns_loop returns_hook returns_trap
      returns_nil returns_act)+

lemma toPromise_returns:
  "well_formed b \<Longrightarrow> count_tasks (queue b) \<le> n \<Longrightarrow> \<exists>r b'. toPromise n b = Some (r, b')"
  using returns_all [THEN conjunct1, of n b] unfolding drain_returns_def by blast

subsection \<open>The drain loop runs tasks depth first\<close>

lemma depth_first_simps [simp]:
  "depth_first d c [] = []"
  "depth_first d c (t # ts) = t # depth_first_actions d c (callback t) @ depth_first d c ts"
  "depth_first d c (ts @ us) = depth_first d c ts @ depth_first d c us"
  by (simp_all add: depth_first_def depth_first_task_def)

lemma plain_tasks_simps [simp]:
  "plain_tasks [] = True"
  "plain_tasks (t # ts) = (plain_actions (callback t) \<and> plain_tasks ts)"
  "plain_tasks (ts @ us) = (plain_tasks ts \<and> plain_tasks us)"
  by (simp_all add: plain_tasks_def)

lemma plain_bench_same:
  "plain_bench d c b \<Longrightarrow> arrays b' = arrays b \<Longrightarrow> tasks b' = tasks b \<Longrightarrow>
   handleTask b' = handleTask b \<Longrightarrow> cwd b' = cwd b \<Longrightarrow> class_name b' = class_name b \<Longrightarrow>
   plain_bench d c b'"
  by (simp add: plain_bench_def well_formed_def queue_def)

lemma ordered_drain:
  assumes e: "\<And>ts b'. loop_ordered d c n ts b'"
  shows "drain_ordered d c n b"
  unfolding drain_ordered_def
proof
  assume ok: "plain_bench d c b"
  then have wf: "well_formed b" by (simp add: plain_bench_def)
  have "plain_bench d c (with_new_queue b)"
    using ok by (simp add: plain_bench_def wf_new_queue) (simp add: with_new_queue_def)
  moreover have "plain_tasks (queue b)" using ok by (simp add: plain_bench_def)
  moreover have "ran (with_new_queue b) = ran b" by (simp add: with_new_queue_def)
  ultimately have "drained d c (ran b @ depth_first d c (queue b)) (for_each n (queue b) (with_new_queue b))"
    using e [of "queue b" "with_new_queue b"] by (simp add: loop_ordered_def)
  then show "drained d c (ran b @ depth_first d c (queue b)) (toPromise n b)"
    using toPromise_is_for_each [OF wf, of n] by simp
qed

lemma ordered_loop_nil: "loop_ordered d c n [] b"
  by (simp add: loop_ordered_def drained_def)

lemma ordered_loop0: "loop_ordered d c 0 (t # ts) b"
  by (simp add: loop_ordered_def drained_def)

lemma ordered_loop:
  assumes h: "\<And>h t' b'. hook_ordered d c n h t' b'"
    and p: "\<And>b'. drain_ordered d c n b'"
    and e: "\<And>b'. loop_ordered d c n ts b'"
  shows "loop_ordered d c (Suc n) (t # ts) b"
  unfolding loop_ordered_def drained_def
proof (intro impI allI)
  fix r b'
  assume a: "plain_bench d c b \<and> queue b = [] \<and> plain_tasks (t # ts)"
    and run: "for_each (Suc n) (t # ts) b = Some (r, b')"
  let ?one = "ran b @ t # depth_first_actions d c (callback t)"
  let ?all = "ran b @ depth_first d c (t # ts)"
  have split: "?all = ?one @ depth_first d c ts" by simp
  have grow: "prefix xs ?all" if "prefix xs ?one" for xs
    unfolding split using that by (rule prefix_prefix)
  define b1 where "b1 = log_description t b"
  have ok1: "plain_bench d c b1" and q1: "queue b1 = []" and ran1: "ran b1 = ran b"
    and h1: "handleTask b1 = Default"
    using a by (auto simp: b1_def plain_bench_def log_description_def queue_def well_formed_def)
  have o2: "ordered d c ?one (call_handleTask n Default t b1)"
    using h [of Default t b1] ok1 q1 ran1 a by (simp add: hook_ordered_def)
  from run obtain r2 b2 where c: "call_handleTask n Default t b1 = Some (r2, b2)"
    by (cases "call_handleTask n Default t b1")
      (auto simp: b1_def [symmetric] h1 Let_def simp del: toPromise.simps call_handleTask.simps)
  show "case r of Inr u \<Rightarrow> plain_bench d c b' \<and> queue b' = [] \<and> ran b' = ?all
        | Inl e \<Rightarrow> prefix (ran b') ?all"
  proof (cases r2)
    case (Inl e2)
    with run c have "r = Inl e2" "b' = b2"
      by (simp_all add: b1_def [symmetric] h1 Let_def del: toPromise.simps call_handleTask.simps)
    moreover have "prefix (ran b2) ?one" using o2 c Inl by (simp add: ordered_def)
    ultimately show ?thesis by (simp add: grow del: depth_first_simps)
  next
    case r2: (Inr u2)
    with o2 c have ok2: "plain_bench d c b2" and ran2: "ran b2 @ depth_first d c (queue b2) = ?one"
      by (simp_all add: ordered_def)
    obtain r3 b3 where w: "private_thenWaitUntilProcessed b2 = (r3, b3)" by force
    have ok3: "plain_bench d c b3"
      using checkpoint_store [OF w] by (intro plain_bench_same [OF ok2]) auto
    have ran3: "ran b3 @ depth_first d c (queue b3) = ?one"
      using ran2 checkpoint_store [OF w] queue_checkpoint [OF w] by simp
    show ?thesis
    proof (cases r3)
      case (Inl e3)
      with run c r2 w have "r = Inl e3" "b' = b3"
        by (simp_all add: b1_def [symmetric] h1 Let_def del: toPromise.simps call_handleTask.simps)
      moreover have "prefix (ran b3) ?one" using ran3 by (metis prefixI)
      ultimately show ?thesis by (simp add: grow del: depth_first_simps)
    next
      case r3: (Inr u3)
      have o4: "drained d c ?one (toPromise n b3)"
        using p [of b3] ok3 ran3 by (simp add: drain_ordered_def del: toPromise.simps)
      from run c r2 w r3 obtain r4 b4 where d4: "toPromise n b3 = Some (r4, b4)"
        by (cases "toPromise n b3")
          (auto simp: b1_def [symmetric] h1 Let_def simp del: toPromise.simps call_handleTask.simps)
      show ?thesis
      proof (cases r4)
        case (Inl e4)
        with run c r2 w r3 d4 have "r = Inl e4" "b' = b4"
          by (simp_all add: b1_def [symmetric] h1 Let_def del: toPromise.simps call_handleTask.simps)
        moreover have "prefix (ran b4) ?one" using o4 d4 Inl by (simp add: drained_def del: toPromise.simps)
        ultimately show ?thesis by (simp add: grow del: depth_first_simps)
      next
        case r4: (Inr u4)
        with o4 d4 have ok4: "plain_bench d c b4" and q4: "queue b4 = []" and ran4: "ran b4 = ?one"
          by (simp_all add: drained_def del: toPromise.simps)
        have "drained d c (ran b4 @ depth_first d c ts) (for_each n ts b4)"
          using e [of b4] ok4 q4 a by (simp add: loop_ordered_def)
        moreover have "for_each n ts b4 = Some (r, b')"
          using run c r2 w r3 d4 r4
          by (simp add: b1_def [symmetric] h1 Let_def del: toPromise.simps call_handleTask.simps)
        ultimately show ?thesis using ran4 by (cases r) (simp_all add: drained_def)
      qed
    qed
  qed
qed

lemma ordered_hook:
  assumes r: "\<And>as b'. callback_ordered d c n as b'"
  shows "hook_ordered d c n Default t b"
  unfolding hook_ordered_def
proof
  assume a: "Default = Default \<and> plain_bench d c b \<and> plain_actions (callback t)"
  define b0 where "b0 = (if breakpoint b then b\<lparr>breakpoint := False\<rparr> else b)"
  define b1 where "b1 = b0\<lparr>ran := ran b0 @ [t]\<rparr>"
  from a have ok: "plain_bench d c b" by simp
  have ok1: "plain_bench d c b1" by (rule plain_bench_same [OF ok]) (auto simp: b1_def b0_def)
  have q1: "queue b1 = queue b" and ran1: "ran b1 = ran b @ [t]"
    by (auto simp: b1_def b0_def queue_def)
  have "ordered d c (ran b1 @ depth_first d c (queue b1) @ depth_first_actions d c (callback t))
          (run_callback n (callback t) b1)"
    using r [of "callback t" b1] ok1 a by (simp add: callback_ordered_def)
  moreover have "call_handleTask n Default t b = run_callback n (callback t) b1"
    by (simp add: b1_def b0_def Let_def)
  ultimately show "ordered d c (ran b @ [t] @ depth_first d c (queue b) @ depth_first_actions d c (callback t))
          (call_handleTask n Default t b)"
    by (simp add: q1 ran1)
qed

lemma ordered_trap: "hook_ordered d c n (Intercept h m) t b"
  by (simp add: hook_ordered_def)

lemma ordered_nil: "callback_ordered d c n [] b"
  by (simp add: callback_ordered_def ordered_def)

lemma addTask_registered:
  assumes "well_formed b" and "addTask cb 1 st b = (Inr u, b')"
  shows "queue b' = queue b @ [registered (cwd b) (class_name b) st cb]"
    and "ran b' = ran b" and "handleTask b' = handleTask b" and "cwd b' = cwd b"
    and "class_name b' = class_name b" and "well_formed b'"
  using assms
  by (auto simp add: addTask_def Let_def addPending_def queue_def well_formed_def registered_def
      split: list.splits)

lemma ordered_act:
  assumes r: "\<And>b'. callback_ordered d c n as b'"
    and p: "\<And>b'. drain_ordered d c n b'"
  shows "callback_ordered d c n (x # as) b"
  unfolding callback_ordered_def
proof
  assume a: "plain_bench d c b \<and> plain_actions (x # as)"
  then have ok: "plain_bench d c b" and wf: "well_formed b" by (simp_all add: plain_bench_def)
  let ?base = "ran b @ depth_first d c (queue b) @ depth_first_actions d c (x # as)"
  have rest: "ordered d c ?base (run_callback n as b1)"
    if "plain_bench d c b1" and "plain_actions as"
      and "ran b1 @ depth_first d c (queue b1) @ depth_first_actions d c as = ?base" for b1
    using r [of b1] that by (simp add: callback_ordered_def)
  have start: "prefix (ran b) ?base" by simp
  show "ordered d c ?base (run_callback n (x # as) b)"
  proof (cases x)
    case (AddTask st cb)
    obtain r1 b1 where t: "addTask cb 1 st b = (r1, b1)" by force
    show ?thesis
    proof (cases r1)
      case (Inl e)
      with addTask_result [OF wf t] have "b1 = b" by simp
      with AddTask t Inl start show ?thesis by (simp add: ordered_def del: depth_first_actions.simps)
    next
      case (Inr u)
      note reg = addTask_registered [OF wf t [unfolded Inr]]
      have cd: "cwd b = d" "class_name b = c" using ok by (simp_all add: plain_bench_def)
      have "plain_bench d c b1"
        using ok a AddTask reg by (simp add: plain_bench_def registered_def)
      moreover have "plain_actions as" using a AddTask by simp
      moreover have "ran b1 @ depth_first d c (queue b1) @ depth_first_actions d c as = ?base"
        using reg cd AddTask by (simp add: registered_def)
      ultimately have "ordered d c ?base (run_callback n as b1)" by (rule rest)
      with AddTask t Inr show ?thesis by simp
    qed
  next
    case AwaitThis
    then have pa: "plain_actions as" using a by simp
    show ?thesis
    proof (cases "then_hook b")
      case False
      have "ordered d c ?base (run_callback n as b)" using ok pa AwaitThis by (intro rest) simp_all
      with AwaitThis False show ?thesis by (simp del: toPromise.simps)
    next
      case True
      have o: "drained d c (ran b @ depth_first d c (queue b)) (toPromise n b)"
        using p [of b] ok by (simp add: drain_ordered_def)
      show ?thesis
      proof (cases "toPromise n b")
        case None
        with AwaitThis True show ?thesis by (simp add: remove_then_def ordered_def del: toPromise.simps)
      next
        case (Some y)
        obtain r1 b1 where y: "y = (r1, b1)" by force
        show ?thesis
        proof (cases r1)
          case (Inl e)
          with o Some y have "prefix (ran b1) (ran b @ depth_first d c (queue b))"
            by (simp add: drained_def del: toPromise.simps)
          then have "prefix (ran b1) ?base"
            using prefix_prefix [of "ran b1" "ran b @ depth_first d c (queue b)" "depth_first_actions d c (x # as)"]
            by simp
          with AwaitThis True Some y Inl show ?thesis
            by (simp add: remove_then_def ordered_def del: toPromise.simps)
        next
          case (Inr u)
          with o Some y have ok1: "plain_bench d c b1" and q1: "queue b1 = []"
            and ran1: "ran b1 = ran b @ depth_first d c (queue b)"
            by (simp_all add: drained_def del: toPromise.simps)
          have "ordered d c ?base (run_callback n as (b1\<lparr>then_hook := False\<rparr>))"
          proof (rule rest)
            show "plain_bench d c (b1\<lparr>then_hook := False\<rparr>)"
              by (rule plain_bench_same [OF ok1]) simp_all
            show "plain_actions as" by (rule pa)
            show "ran (b1\<lparr>then_hook := False\<rparr>) @ depth_first d c (queue (b1\<lparr>then_hook := False\<rparr>)) @
                  depth_first_actions d c as = ?base"
              using q1 ran1 AwaitThis by (simp add: queue_def)
          qed
          with AwaitThis True Some y Inr show ?thesis
            by (simp add: remove_then_def del: toPromise.simps)
        qed
      qed
    qed
  next
    case WaitUntilProcessed
    then have pa: "plain_actions as" using a by simp
    obtain r1 b1 where w: "private_thenWaitUntilProcessed b = (r1, b1)" by force
    note st = checkpoint_store [OF w] queue_checkpoint [OF w]
    show ?thesis
    proof (cases r1)
      case (Inl e)
      with WaitUntilProcessed w st start show ?thesis
        by (simp add: ordered_def del: depth_first_actions.simps)
    next
      case (Inr u)
      have "ordered d c ?base (run_callback n as b1)"
      proof (rule rest)
        show "plain_bench d c b1" using st by (intro plain_bench_same [OF ok]) auto
        show "plain_actions as" by (rule pa)
        show "ran b1 @ depth_first d c (queue b1) @ depth_first_actions d c as = ?base"
          using st WaitUntilProcessed by simp
      qed
      with WaitUntilProcessed w Inr show ?thesis by simp
    qed
  next
    case (Throw e)
    with start show ?thesis by (simp add: ordered_def del: depth_first_actions.simps)
  next
    case (Publish q)
    have "ordered d c ?base (run_callback n as (b\<lparr>asyncBus := asyncBus b @ [q]\<rparr>))"
      using a Publish by (intro rest plain_bench_same [OF ok]) (simp_all add: queue_def)
    with Publish show ?thesis by simp
  next
    case (SwapHandleTask m)
    with a show ?thesis by simp
  next
    case SetBreakpoint
    have "ordered d c ?base (run_callback n as (b\<lparr>breakpoint := True\<rparr>))"
      using a SetBreakpoint by (intro rest plain_bench_same [OF ok]) (simp_all add: queue_def)
    with SetBreakpoint show ?thesis by simp
  next
    case (SetLogger l)
    have "ordered d c ?base (run_callback n as (b\<lparr>logger := l\<rparr>))"
      using a SetLogger by (intro rest plain_bench_same [OF ok]) (simp_all add: queue_def)
    with SetLogger show ?thesis by simp
  qed
qed

lemma ordered_all:
  "drain_ordered d c n b \<and> loop_ordered d c n ts b \<and> hook_ordered d c n h t b \<and>
   callback_ordered d c n as b"
  by (rule drain_induct_each [where Pt = "drain_ordered d c" and Pe = "loop_ordered d c"
        and Ph = "hook_ordered d c" and Pr = "callback_ordered d c"])
    (fact ordered_drain ordered_loop_nil ordered_loop0 ordered_loop ordered_hook
      ordered_nil ordered_act | rule ordered_trap)+

subsection \<open>More fuel changes no result\<close>

lemma more_fuelD: "more_fuel x y \<Longrightarrow> x = Some v \<Longrightarrow> y = Some v"
  by (simp add: more_fuel_def)

lemma fuel_drain:
  assumes f: "\<And>a i b'. more_fuel (for_of n a i b') (for_of (Suc n) a i b')"
  shows "more_fuel (toPromise n b) (toPromise (Suc n) b)"
  using f by (simp only: toPromise.simps)

lemma fuel_loop0: "more_fuel (for_of 0 a i b) (for_of (Suc 0) a i b)"
  by (simp add: more_fuel_def)

lemma fuel_loop_step:
  assumes h: "\<And>h t b' v. call_handleTask n h t b' = Some v \<Longrightarrow> call_handleTask m h t b' = Some v"
    and t: "\<And>b' v. toPromise n b' = Some v \<Longrightarrow> toPromise m b' = Some v"
    and f: "\<And>a' i' b' v. for_of n a' i' b' = Some v \<Longrightarrow> for_of m a' i' b' = Some v"
    and run: "for_of (Suc n) a i b = Some (r, b')"
  shows "for_of (Suc m) a i b = Some (r, b')"
proof (cases "i < length (arrays b ! a)")
  case False
  with run show ?thesis by simp
next
  case True
  define task where "task = arrays b ! a ! i"
  define b1 where "b1 = log_description task b"
  define tail where "tail k r3 b3 =
     (case r3 of Inl e \<Rightarrow> Some (Inl e, b3)
      | Inr (u::unit) \<Rightarrow>
          (case toPromise k b3 of
             None \<Rightarrow> None
           | Some (Inl e, b4) \<Rightarrow> Some (Inl e, b4)
           | Some (Inr (u::unit), b4) \<Rightarrow> for_of k a (Suc i) b4))" for k r3 b3
  have unfold: "for_of (Suc k) a i b =
      (case call_handleTask k (handleTask b1) task b1 of
         None \<Rightarrow> None
       | Some (Inl e, b2) \<Rightarrow> Some (Inl e, b2)
       | Some (Inr u, b2) \<Rightarrow> tail k (fst (private_thenWaitUntilProcessed b2)) (snd (private_thenWaitUntilProcessed b2)))" for k
    using True
    by (simp add: task_def b1_def tail_def Let_def split_beta del: toPromise.simps
        split: option.split sum.split)
  from run obtain r2 b2 where c: "call_handleTask n (handleTask b1) task b1 = Some (r2, b2)"
    unfolding unfold by (cases "call_handleTask n (handleTask b1) task b1") auto
  note c' = h [OF c]
  show ?thesis
  proof (cases r2)
    case (Inl e)
    with run c c' show ?thesis unfolding unfold by auto
  next
    case (Inr u)
    obtain r3 b3 where w: "private_thenWaitUntilProcessed b2 = (r3, b3)" by force
    from run c Inr w have n: "tail n r3 b3 = Some (r, b')" unfolding unfold by simp
    have "tail m r3 b3 = Some (r, b')"
    proof (cases r3)
      case (Inl e3)
      with n show ?thesis by (auto simp: tail_def)
    next
      case r3: (Inr u3)
      from n r3 obtain r4 b4 where p: "toPromise n b3 = Some (r4, b4)"
        by (cases "toPromise n b3") (auto simp: tail_def simp del: toPromise.simps)
      note p' = t [OF p]
      show ?thesis
      proof (cases r4)
        case (Inl e4)
        with n r3 p p' show ?thesis by (auto simp: tail_def simp del: toPromise.simps)
      next
        case (Inr u4)
        with n r3 p have "for_of n a (Suc i) b4 = Some (r, b')" by (simp add: tail_def del: toPromise.simps)
        then have "for_of m a (Suc i) b4 = Some (r, b')" by (rule f)
        with r3 p' Inr show ?thesis by (simp add: tail_def del: toPromise.simps)
      qed
    qed
    with c' Inr w show ?thesis unfolding unfold by simp
  qed
qed

lemma fuel_loop:
  assumes h: "\<And>h t b'. more_fuel (call_handleTask n h t b') (call_handleTask (Suc n) h t b')"
    and t: "\<And>b'. more_fuel (toPromise n b') (toPromise (Suc n) b')"
    and f: "\<And>a' i' b'. more_fuel (for_of n a' i' b') (for_of (Suc n) a' i' b')"
  shows "more_fuel (for_of (Suc n) a i b) (for_of (Suc (Suc n)) a i b)"
  unfolding more_fuel_def
proof (intro allI impI)
  fix v assume run: "for_of (Suc n) a i b = Some v"
  obtain r b' where v: "v = (r, b')" by force
  show "for_of (Suc (Suc n)) a i b = Some v"
    unfolding v
    by (rule fuel_loop_step [OF more_fuelD [OF h] more_fuelD [OF t] more_fuelD [OF f] run [unfolded v]])
qed

lemma fuel_hook:
  assumes r: "\<And>as b'. more_fuel (run_callback n as b') (run_callback (Suc n) as b')"
  shows "more_fuel (call_handleTask n Default t b) (call_handleTask (Suc n) Default t b)"
  using r by (simp add: Let_def)

lemma fuel_trap_step:
  assumes h: "\<And>t' b' v. call_handleTask n h t' b' = Some v \<Longrightarrow> call_handleTask k h t' b' = Some v"
    and t: "\<And>b' v. toPromise n b' = Some v \<Longrightarrow> toPromise k b' = Some v"
    and run: "call_handleTask n (Intercept h m) t b = Some (r, b')"
  shows "call_handleTask k (Intercept h m) t b = Some (r, b')"
proof -
  define b0 where "b0 = b\<lparr>handleTask := h\<rparr>"
  from run obtain r1 b1 where c: "call_handleTask n h t b0 = Some (r1, b1)"
    by (cases "call_handleTask n h t b0") (auto simp: b0_def simp del: toPromise.simps)
  note c' = h [OF c]
  show ?thesis
  proof (cases r1)
    case (Inl e)
    with run c c' show ?thesis by (auto simp: b0_def [symmetric] simp del: toPromise.simps)
  next
    case (Inr u)
    with run c obtain r2 b2 where p: "toPromise n b1 = Some (r2, b2)"
      by (cases "toPromise n b1") (auto simp: b0_def [symmetric] simp del: toPromise.simps)
    note p' = t [OF p]
    from run c c' Inr p p' show ?thesis
      by (cases r2) (auto simp: b0_def [symmetric] simp del: toPromise.simps)
  qed
qed

lemma fuel_trap:
  assumes h: "\<And>t' b'. more_fuel (call_handleTask n h t' b') (call_handleTask (Suc n) h t' b')"
    and t: "\<And>b'. more_fuel (toPromise n b') (toPromise (Suc n) b')"
  shows "more_fuel (call_handleTask n (Intercept h m) t b) (call_handleTask (Suc n) (Intercept h m) t b)"
  unfolding more_fuel_def
proof (intro allI impI)
  fix v assume run: "call_handleTask n (Intercept h m) t b = Some v"
  obtain r b' where v: "v = (r, b')" by force
  show "call_handleTask (Suc n) (Intercept h m) t b = Some v"
    unfolding v
    by (rule fuel_trap_step [OF more_fuelD [OF h] more_fuelD [OF t] run [unfolded v]])
qed

lemma fuel_nil: "more_fuel (run_callback n [] b) (run_callback (Suc n) [] b)"
  by (simp add: more_fuel_def)

lemma fuel_act:
  assumes r: "\<And>b'. more_fuel (run_callback n as b') (run_callback (Suc n) as b')"
    and t: "\<And>b'. more_fuel (toPromise n b') (toPromise (Suc n) b')"
  shows "more_fuel (run_callback n (x # as) b) (run_callback (Suc n) (x # as) b)"
  unfolding more_fuel_def
proof (intro allI impI)
  fix v assume run: "run_callback n (x # as) b = Some v"
  note rest = more_fuelD [OF r]
  show "run_callback (Suc n) (x # as) b = Some v"
  proof (cases x)
    case (AddTask st cb)
    obtain r1 b1 where a: "addTask cb 1 st b = (r1, b1)" by force
    with run AddTask rest [of b1 v] show ?thesis by (cases r1) auto
  next
    case AwaitThis
    show ?thesis
    proof (cases "then_hook b")
      case False
      with run AwaitThis rest [of b v] show ?thesis by (simp del: toPromise.simps)
    next
      case True
      show ?thesis
      proof (cases "toPromise n b")
        case None
        with run AwaitThis True show ?thesis by (simp add: remove_then_def del: toPromise.simps)
      next
        case (Some y)
        obtain r1 b1 where y: "y = (r1, b1)" by force
        note p' = more_fuelD [OF t Some]
        from run AwaitThis True Some y p' rest [of "b1\<lparr>then_hook := False\<rparr>" v] show ?thesis
          by (cases r1) (auto simp: remove_then_def simp del: toPromise.simps)
      qed
    qed
  next
    case WaitUntilProcessed
    obtain r1 b1 where w: "private_thenWaitUntilProcessed b = (r1, b1)" by force
    with run WaitUntilProcessed rest [of b1 v] show ?thesis by (cases r1) auto
  next
    case (Throw e)
    with run show ?thesis by auto
  next
    case (Publish q)
    with run rest [of "b\<lparr>asyncBus := asyncBus b @ [q]\<rparr>" v] show ?thesis by simp
  next
    case (SwapHandleTask m)
    with run rest [of "b\<lparr>handleTask := Intercept (handleTask b) m\<rparr>" v] show ?thesis by simp
  next
    case SetBreakpoint
    with run rest [of "b\<lparr>breakpoint := True\<rparr>" v] show ?thesis by simp
  next
    case (SetLogger l)
    with run rest [of "b\<lparr>logger := l\<rparr>" v] show ?thesis by simp
  qed
qed

lemma fuel_all:
  "more_fuel (toPromise n b) (toPromise (Suc n) b) \<and>
   more_fuel (for_of n a i b) (for_of (Suc n) a i b) \<and>
   more_fuel (call_handleTask n h t b) (call_handleTask (Suc n) h t b) \<and>
   more_fuel (run_callback n as b) (run_callback (Suc n) as b)"
  by (rule drain_induct [where Pt = "\<lambda>n b. more_fuel (toPromise n b) (toPromise (Suc n) b)"
      and Pf = "\<lambda>n a i b. more_fuel (for_of n a i b) (for_of (Suc n) a i b)"
      and Ph = "\<lambda>n h t b. more_fuel (call_handleTask n h t b) (call_handleTask (Suc n) h t b)"
      and Pr = "\<lambda>n as b. more_fuel (run_callback n as b) (run_callback (Suc n) as b)"])
    (fact fuel_drain fuel_loop0 fuel_loop fuel_hook fuel_trap fuel_nil fuel_act)+

lemma toPromise_more_fuel:
  "n \<le> m \<Longrightarrow> toPromise n b = Some v \<Longrightarrow> toPromise m b = Some v"
proof (induction m)
  case 0
  then show ?case by simp
next
  case (Suc m)
  show ?case
  proof (cases "n = Suc m")
    case True
    with Suc.prems show ?thesis by simp
  next
    case False
    with Suc have "toPromise m b = Some v" by simp
    then show ?thesis by (rule more_fuelD [OF fuel_all [THEN conjunct1]])
  qed
qed

text \<open>
  C1. On a bench with the hook of the class, whose tasks never replace the hook (no
  \<^verbatim>\<open>throws\<close>; a callback is a list of actions, so it fails when an action of it
  fails and cannot catch the rejection of a bench it awaits), a drain
  returns whenever the fuel is at least the number of tasks that can be registered, and
  with whatever fuel it returns, it returns the same. If it succeeds, the tasks that ran
  are, in order, the depth-first flattening of the queue: each task of the snapshot in
  registration order, each followed by the tasks its callback registered and theirs,
  before the next task of the snapshot; and the queue is empty. If a task or a
  checkpoint throws, the tasks that ran are a prefix of that flattening.
\<close>

theorem drain_is_depth_first:
  assumes ok: "plain_bench (cwd b) (class_name b) b"
  shows "\<exists>r b'.
           (\<forall>n\<ge>count_tasks (queue b). toPromise n b = Some (r, b')) \<and>
           (\<forall>n v. toPromise n b = Some v \<longrightarrow> v = (r, b')) \<and>
           (case r of
              Inr u \<Rightarrow> ran b' = ran b @ depth_first (cwd b) (class_name b) (queue b) \<and> queue b' = []
            | Inl e \<Rightarrow> prefix (ran b') (ran b @ depth_first (cwd b) (class_name b) (queue b)))"
proof -
  let ?N = "count_tasks (queue b)"
  from ok have wf: "well_formed b" by (simp add: plain_bench_def)
  from toPromise_returns [OF wf, of ?N] obtain r b' where run: "toPromise ?N b = Some (r, b')"
    by auto
  have all: "toPromise n b = Some (r, b')" if "?N \<le> n" for n
    using that run by (rule toPromise_more_fuel)
  have same: "v = (r, b')" if v: "toPromise n b = Some v" for n v
  proof -
    have "toPromise (max n ?N) b = Some v" by (rule toPromise_more_fuel [OF _ v]) simp
    moreover have "toPromise (max n ?N) b = Some (r, b')" by (rule all) simp
    ultimately show ?thesis by simp
  qed
  have "drained (cwd b) (class_name b) (ran b @ depth_first (cwd b) (class_name b) (queue b))
          (toPromise ?N b)"
    using ordered_all [THEN conjunct1, of "cwd b" "class_name b" ?N b] ok
    by (simp only: drain_ordered_def)
  with run have "case r of
              Inr u \<Rightarrow> ran b' = ran b @ depth_first (cwd b) (class_name b) (queue b) \<and> queue b' = []
            | Inl e \<Rightarrow> prefix (ran b') (ran b @ depth_first (cwd b) (class_name b) (queue b))"
    by (cases r) (simp_all add: drained_def del: toPromise.simps)
  with all same show ?thesis by blast
qed

lemma depth_first_chain_plain:
  "plain_bench (cwd depth_first_chain) (class_name depth_first_chain) depth_first_chain"
  by (simp add: plain_bench_def well_formed_def queue_def depth_first_chain_def given_def addTask_def
      stack_at_def new_bench_def addPending_def Let_def)

theorem drain_is_depth_first_witness:
  "plain_bench (cwd depth_first_chain) (class_name depth_first_chain) depth_first_chain \<and>
   map registration_line (queue depth_first_chain) = [Some 10, Some 20] \<and>
   (\<exists>b'. toPromise 4 depth_first_chain = Some (Inr (), b') \<and>
      map registration_line (ran b') = [Some 10, Some 11, Some 12, Some 20])"
proof -
  let ?b = depth_first_chain
  note ok = depth_first_chain_plain
  have q: "map registration_line (queue ?b) = [Some 10, Some 20]" by code_simp
  have n: "count_tasks (queue ?b) = 4" by code_simp
  have r: "fst (the (toPromise 4 ?b)) = Inr ()" by code_simp
  have d: "map registration_line (ran ?b @ depth_first (cwd ?b) (class_name ?b) (queue ?b))
             = [Some 10, Some 11, Some 12, Some 20]" by code_simp
  from drain_is_depth_first [OF ok] obtain r' b' where
    run: "\<forall>n\<ge>count_tasks (queue ?b). toPromise n ?b = Some (r', b')"
    and ord: "case r' of
              Inr u \<Rightarrow> ran b' = ran ?b @ depth_first (cwd ?b) (class_name ?b) (queue ?b) \<and> queue b' = []
            | Inl e \<Rightarrow> prefix (ran b') (ran ?b @ depth_first (cwd ?b) (class_name ?b) (queue ?b))"
    by blast
  from run n have run4: "toPromise 4 ?b = Some (r', b')" by (simp del: toPromise.simps)
  with r have r': "r' = Inr ()" by (simp del: toPromise.simps)
  with ord d have "map registration_line (ran b') = [Some 10, Some 11, Some 12, Some 20]" by simp
  with ok q run4 r' show ?thesis by (simp del: toPromise.simps)
qed

text \<open>
  With \<^verbatim>\<open>throws\<close> the order is not the flattening. After \<^verbatim>\<open>throws('boom')\<close>
  the step at line 20 registers tasks at lines 21 and 22; the task of line 21 throws
  \<^verbatim>\<open>Error('boom')\<close>, which the hook catches: the drain succeeds, the step at line 30
  runs, and the task of line 22 never does.
\<close>

theorem trapped_failure_breaks_depth_first_order:
  "fst (the (toPromise 4 trapped_nested_chain)) = Inr () \<and>
   map registration_line (ran (snd (the (toPromise 4 trapped_nested_chain))))
     = [Some 10, Some 370, Some 20, Some 21, Some 30] \<and>
   map registration_line
       (depth_first (cwd trapped_nested_chain) (class_name trapped_nested_chain)
          (queue trapped_nested_chain))
     = [Some 10, Some 370, Some 20, Some 21, Some 22, Some 30]"
  by code_simp


subsection \<open>The checkpoint\<close>

text \<open>
  C3. The checkpoint leaves the bus idle and throws the oldest reported error, if there is
  one, removing only that one; the others stay in the order they were reported. With two
  errors reported and the bus idle, the first call throws the first, the second call the
  second, and the third call returns.
\<close>

theorem checkpoint_throws_one_error_fifo:
  "private_thenWaitUntilProcessed b =
     (case reported b of
        [] \<Rightarrow> (Inr (), b\<lparr>errors := [], asyncBus := []\<rparr>)
      | e # es \<Rightarrow> (Inl e, b\<lparr>errors := es, asyncBus := []\<rparr>)) \<and>
   private_thenWaitUntilProcessed (b\<lparr>errors := [e1, e2], asyncBus := []\<rparr>)
     = (Inl e1, b\<lparr>errors := [e2], asyncBus := []\<rparr>) \<and>
   private_thenWaitUntilProcessed (b\<lparr>errors := [e2], asyncBus := []\<rparr>)
     = (Inl e2, b\<lparr>errors := [], asyncBus := []\<rparr>) \<and>
   private_thenWaitUntilProcessed (b\<lparr>errors := [], asyncBus := []\<rparr>)
     = (Inr (), b\<lparr>errors := [], asyncBus := []\<rparr>)"
  by (simp add: private_thenWaitUntilProcessed_def untilIdle_def reported_def Let_def
      split: list.split)

subsection \<open>The constructor\<close>

text \<open>
  C7. A date moment cannot read makes \<^verbatim>\<open>parseDateTime\<close> throw, and the constructor,
  which calls it first, throws the same error: no bench exists, so no task was queued.
\<close>

theorem construction_error_is_synchronous:
  "moment parse date = None \<Longrightarrow>
     parseDateTime parse date = Inl (Error (''Date is not valid '' @ toString_invalid date)) \<and>
     create dir cls parse date = Inl (Error (''Date is not valid '' @ toString_invalid date))"
  by (simp add: parseDateTime_def create_def)

theorem construction_error_is_synchronous_witness:
  "moment (\<lambda>s. None) (DateString ''yesterday-ish'') = None \<and>
   parseDateTime (\<lambda>s. None) (DateString ''yesterday-ish'')
     = Inl (Error ''Date is not valid yesterday-ish'') \<and>
   create ''/app'' ''EventSourcingTestBench'' (\<lambda>s. None) (DateString ''yesterday-ish'')
     = Inl (Error ''Date is not valid yesterday-ish'')"
  using construction_error_is_synchronous
    [of "\<lambda>s. None" "DateString ''yesterday-ish''" "''/app''" "''EventSourcingTestBench''"]
  by (simp add: moment_def toString_invalid_def)

subsection \<open>Registration\<close>


lemma describe_missing_fields:
  "describe dir name
     \<lparr>functionName = None, fileName = x, lineNumber = y, columnNumber = z\<rparr>
     \<lparr>functionName = f, fileName = None, lineNumber = l, columnNumber = c\<rparr>
   = sprintf_left60 ('':'' @ template_number l @ '':'' @ template_number c) []"
  by (simp add: describe_def)

text \<open>
  C6. With fewer than two frames after the skipped one, \<^verbatim>\<open>realStack[1]\<close> is
  \<^verbatim>\<open>undefined\<close> and \<^verbatim>\<open>addTask\<close> throws a \<^verbatim>\<open>TypeError\<close> at
  \<^verbatim>\<open>userFunction.fileName\<close>; nothing is registered. (The message of the error is that
  of V8 without its quotation marks.)
\<close>

theorem addTask_short_stack_throws:
  "addTask cb 1 [] b = (Inl (TypeError ''Cannot read property fileName of undefined''), b) \<and>
   addTask cb 1 [f0] b = (Inl (TypeError ''Cannot read property fileName of undefined''), b) \<and>
   addTask cb 1 [f0, f1] b = (Inl (TypeError ''Cannot read property fileName of undefined''), b)"
  by (simp add: addTask_def)

subsection \<open>Awaiting the bench\<close>

lemma empty_drain:
  "well_formed b \<Longrightarrow> queue b = [] \<Longrightarrow> toPromise n b = Some (Inr (), with_new_queue b)"
  by (simp add: toPromise_is_for_each del: toPromise.simps)

text \<open>
  C8. A bench as the constructor leaves it has no \<^verbatim>\<open>then\<close>, which only a
  registration installs: awaiting it gives the bench itself, unchanged, with no task run
  and no line printed. A drain of its empty queue succeeds at once with no fuel, runs
  nothing and prints nothing, and \<^verbatim>\<open>thenPromise\<close> then resolves with the bench.
\<close>

theorem empty_chain_resolves_with_the_bench:
  assumes c: "create dir cls parse date = Inr b"
  shows "await_bench n b = Some (Inr This, b) \<and> ran b = [] \<and> stdout b = [] \<and>
         toPromise n b = Some (Inr (), with_new_queue b) \<and>
         thenPromise n b = Some (Inr This, (with_new_queue b)\<lparr>then_hook := False\<rparr>) \<and>
         ran (with_new_queue b) = [] \<and> stdout (with_new_queue b) = [] \<and>
         queue (with_new_queue b) = []"
proof -
  from c obtain t where b: "b = \<lparr>arrays = [[]], tasks = 0, errors = [], indent = 0, breakpoint = False,
          currentTime = t, logger = NullLogger, handleTask = Default, then_hook = False,
          asyncBus = [], stdout = [], cwd = dir, class_name = cls, ran = []\<rparr>"
    by (auto simp: create_def split: sum.splits)
  have wf: "well_formed b" and q: "queue b = []" by (simp_all add: b well_formed_def queue_def)
  have d: "toPromise n b = Some (Inr (), with_new_queue b)" using wf q by (rule empty_drain)
  have "await_bench n b = Some (Inr This, b)" by (simp add: await_bench_def b)
  moreover have "thenPromise n b = Some (Inr This, (with_new_queue b)\<lparr>then_hook := False\<rparr>)"
    unfolding thenPromise_def d by (simp add: remove_then_def)
  moreover have "ran b = []" "stdout b = []" "ran (with_new_queue b) = []"
    "stdout (with_new_queue b) = []"
    by (simp_all add: b with_new_queue_def)
  ultimately show ?thesis using d by (simp del: toPromise.simps)
qed

theorem empty_chain_resolves_with_the_bench_witness:
  "create ''/app'' ''EventSourcingTestBench'' (\<lambda>s. None) defaultCurrentTime = Inr new_bench \<and>
   await_bench 0 new_bench = Some (Inr This, new_bench) \<and> ran new_bench = [] \<and>
   stdout new_bench = [] \<and>
   toPromise 0 new_bench = Some (Inr (), with_new_queue new_bench) \<and>
   thenPromise 0 new_bench = Some (Inr This, (with_new_queue new_bench)\<lparr>then_hook := False\<rparr>)"
  using empty_chain_resolves_with_the_bench [OF new_bench_created [of "\<lambda>s. None"], where n = 0]
    new_bench_created [of "\<lambda>s. None"]
  by (simp del: toPromise.simps)




subsection \<open>The diagnostic line\<close>







subsection \<open>The hook of \<^verbatim>\<open>throws\<close>\<close>




lemma task_at_simps [simp]:
  "callback (task_at st cb b) = cb"
  "registration_line (task_at (stack_at method l) cb b) = Some l"
  "registration_line (task_at (nested_stack_at method l) cb b) = Some l"
  by (simp_all add: task_at_def registration_line_def stack_at_def nested_stack_at_def frame_def)










end
